theory Spec2Isabelle
  imports Main "HOL-Library.AList"
begin

section \<open>Python text\<close>

text \<open>
  A Python \<^verbatim>\<open>str\<close> is a sequence of Unicode code points; it is modelled as a list of
  natural numbers, one per code point.  ASCII literals of the sources are written with
  \<open>ascii\<close>.
\<close>

type_synonym pystr = "nat list"

definition ascii :: "string \<Rightarrow> pystr" where
  "ascii s = map of_char s"

abbreviation (input) NL :: nat where "NL \<equiv> 10"
abbreviation (input) QUOTE :: nat where "QUOTE \<equiv> 34"
abbreviation (input) COMMA :: nat where "COMMA \<equiv> 44"
abbreviation (input) BSLASH :: nat where "BSLASH \<equiv> 92"
abbreviation (input) RBRACK :: nat where "RBRACK \<equiv> 93"
abbreviation (input) BTICK :: nat where "BTICK \<equiv> 96"
abbreviation (input) RBRACE :: nat where "RBRACE \<equiv> 125"

text \<open>
  \<^verbatim>\<open>str.isspace\<close>, which is also the class \<^verbatim>\<open>\s\<close> of \<^verbatim>\<open>re\<close> on a \<^verbatim>\<open>str\<close> pattern and the
  set that \<^verbatim>\<open>str.strip()\<close> removes: U+0009..U+000D, U+001C..U+0020, U+0085, U+00A0,
  U+1680, U+2000..U+200A, U+2028, U+2029, U+202F, U+205F, U+3000.
\<close>

definition py_isspace :: "nat \<Rightarrow> bool" where
  "py_isspace c \<longleftrightarrow>
     (9 \<le> c \<and> c \<le> 13) \<or> (28 \<le> c \<and> c \<le> 32) \<or> c = 133 \<or> c = 160 \<or> c = 5760 \<or>
     (8192 \<le> c \<and> c \<le> 8202) \<or> c = 8232 \<or> c = 8233 \<or> c = 8239 \<or> c = 8287 \<or> c = 12288"

definition py_lstrip :: "pystr \<Rightarrow> pystr" where
  "py_lstrip s = dropWhile py_isspace s"

definition py_rstrip :: "pystr \<Rightarrow> pystr" where
  "py_rstrip s = rev (dropWhile py_isspace (rev s))"

definition py_strip :: "pystr \<Rightarrow> pystr" where
  "py_strip s = py_rstrip (py_lstrip s)"

definition starts_with :: "pystr \<Rightarrow> pystr \<Rightarrow> bool" where
  "starts_with p s \<longleftrightarrow> take (length p) s = p"

section \<open>The repair step: \<^verbatim>\<open>clean_json_text\<close>\<close>

text \<open>
  \<^verbatim>\<open>(?:json)?\<close> under \<^verbatim>\<open>re.IGNORECASE\<close>: the letters match in either case, and \<^verbatim>\<open>s\<close> also
  matches U+017F (the long s), which the \<^verbatim>\<open>re\<close> module treats as a case variant of it.
\<close>

fun ci_json :: "pystr \<Rightarrow> bool" where
  "ci_json (a # b # c # d # _) \<longleftrightarrow>
     (a = 74 \<or> a = 106) \<and> (b = 83 \<or> b = 115 \<or> b = 383) \<and> (c = 79 \<or> c = 111) \<and> (d = 78 \<or> d = 110)"
| "ci_json _ \<longleftrightarrow> False"

text \<open>
  \<^verbatim>\<open>re.sub(r"^```(?:json)?", "", raw, flags=re.IGNORECASE | re.MULTILINE)\<close>.
  The flag \<open>bol\<close> says that the position is the start of the text or follows a newline.
  Every match is removed; the position after a match follows a backtick or a letter, so
  it is not the beginning of a line.
\<close>

fun sub_fence_open :: "bool \<Rightarrow> pystr \<Rightarrow> pystr" where
  "sub_fence_open bol [] = []"
| "sub_fence_open bol (c # cs) =
     (if bol \<and> c = BTICK \<and> take 2 cs = [BTICK, BTICK]
      then sub_fence_open False (if ci_json (drop 2 cs) then drop 6 cs else drop 2 cs)
      else c # sub_fence_open (c = NL) cs)"

text \<open>
  \<^verbatim>\<open>re.sub(r"```$", "", raw, flags=re.MULTILINE)\<close>: three backticks that are followed by
  the end of the text or by a newline.
\<close>

fun sub_fence_close :: "pystr \<Rightarrow> pystr" where
  "sub_fence_close [] = []"
| "sub_fence_close (c # cs) =
     (if c = BTICK \<and> take 2 cs = [BTICK, BTICK] \<and> (drop 2 cs = [] \<or> hd (drop 2 cs) = NL)
      then sub_fence_close (drop 2 cs)
      else c # sub_fence_close cs)"

text \<open>
  \<^verbatim>\<open>raw.lower().startswith("json")\<close>: only the ASCII letters lower to \<^verbatim>\<open>j\<close>, \<^verbatim>\<open>s\<close>,
  \<^verbatim>\<open>o\<close>, \<^verbatim>\<open>n\<close>.
\<close>

fun lower_startswith_json :: "pystr \<Rightarrow> bool" where
  "lower_startswith_json (a # b # c # d # _) \<longleftrightarrow>
     (a = 74 \<or> a = 106) \<and> (b = 83 \<or> b = 115) \<and> (c = 79 \<or> c = 111) \<and> (d = 78 \<or> d = 110)"
| "lower_startswith_json _ \<longleftrightarrow> False"

text \<open>\<^verbatim>\<open>.lstrip("\n\r ")\<close>\<close>

definition lstrip_nl_cr_sp :: "pystr \<Rightarrow> pystr" where
  "lstrip_nl_cr_sp s = dropWhile (\<lambda>c. c = 10 \<or> c = 13 \<or> c = 32) s"

text \<open>\<^verbatim>\<open>raw.replace('\\"', '"')\<close>: every backslash followed by a quote becomes the quote.\<close>

fun unescape_quotes :: "pystr \<Rightarrow> pystr" where
  "unescape_quotes (a # b # cs) =
     (if a = BSLASH \<and> b = QUOTE then QUOTE # unescape_quotes cs
      else a # unescape_quotes (b # cs))"
| "unescape_quotes cs = cs"

text \<open>
  \<^verbatim>\<open>re.sub(r",\s*([\]}])", r"\1", raw)\<close>: a comma, any run of whitespace, and a closing
  bracket or brace are replaced by the bracket or brace alone.
\<close>

definition is_closer :: "nat \<Rightarrow> bool" where
  "is_closer c \<longleftrightarrow> c = RBRACK \<or> c = RBRACE"

function sub_trailing_commas :: "pystr \<Rightarrow> pystr" where
  "sub_trailing_commas [] = []"
| "sub_trailing_commas (c # cs) =
     (if c = COMMA
      then (case dropWhile py_isspace cs of
              [] \<Rightarrow> c # sub_trailing_commas cs
            | d # ds \<Rightarrow> if is_closer d then d # sub_trailing_commas ds
                       else c # sub_trailing_commas cs)
      else c # sub_trailing_commas cs)"
  by pat_completeness auto
termination
proof (relation "measure length")
  fix c :: nat and cs d ds
  assume "dropWhile py_isspace cs = d # ds"
  then have "length (d # ds) \<le> length cs"
    by (metis length_dropWhile_le)
  then show "(ds, c # cs) \<in> measure length" by simp
qed auto

text \<open>
  \<^verbatim>\<open>
  def clean_json_text(raw: str) -> str:
      if not raw:
          return raw
      raw = raw.strip()
      raw = re.sub(r"^```(?:json)?", "", raw, flags=re.IGNORECASE | re.MULTILINE)
      raw = re.sub(r"```$", "", raw.strip(), flags=re.MULTILINE)
      if raw.lower().startswith("json"):
          raw = raw[4:].lstrip("\n\r ")
      raw = raw.replace('\\"', '"')
      raw = re.sub(r",\s*([\]}])", r"\1", raw)
      return raw.strip()
  \<close>
\<close>

definition clean_json_text :: "pystr \<Rightarrow> pystr" where
  "clean_json_text raw =
     (if raw = [] then raw
      else
        let r1 = py_strip raw;
            r2 = sub_fence_open True r1;
            r3 = sub_fence_close (py_strip r2);
            r4 = (if lower_startswith_json r3 then lstrip_nl_cr_sp (drop 4 r3) else r3);
            r5 = unescape_quotes r4;
            r6 = sub_trailing_commas r5
        in py_strip r6)"

section \<open>JSON values and \<^verbatim>\<open>json.loads\<close>\<close>

text \<open>
  The values \<^verbatim>\<open>json.loads\<close> builds.  A float keeps the text of its literal (floating
  point is not modelled), a \<^verbatim>\<open>dict\<close> is the list of its items in insertion order with
  distinct keys.  Equality of the model is finer than Python's \<^verbatim>\<open>==\<close>, which ignores
  the order of dict items and identifies \<^verbatim>\<open>1\<close>, \<^verbatim>\<open>1.0\<close> and \<^verbatim>\<open>True\<close>.  Limits of the
  interpreter (recursion depth, the digit limit of \<^verbatim>\<open>int\<close>) are not modelled.
\<close>

datatype json =
    JNull
  | JBool bool
  | JInt int
  | JFloat pystr
  | JStr pystr
  | JArr "json list"
  | JObj "(pystr \<times> json) list"

text \<open>\<^verbatim>\<open>d[k] = v\<close> on a dict: an existing key keeps its place, a new key goes last.\<close>

definition dict_set :: "'k \<Rightarrow> 'v \<Rightarrow> ('k \<times> 'v) list \<Rightarrow> ('k \<times> 'v) list" where
  "dict_set k v d = AList.update k v d"

text \<open>\<^verbatim>\<open>dict(pairs)\<close>\<close>

definition py_dict :: "('k \<times> 'v) list \<Rightarrow> ('k \<times> 'v) list" where
  "py_dict pairs = foldl (\<lambda>d (k, v). dict_set k v d) [] pairs"

subsection \<open>Scanning strings and numbers\<close>

definition is_json_ws :: "nat \<Rightarrow> bool" where
  "is_json_ws c \<longleftrightarrow> c = 32 \<or> c = 9 \<or> c = 10 \<or> c = 13"

definition is_digit :: "nat \<Rightarrow> bool" where
  "is_digit c \<longleftrightarrow> 48 \<le> c \<and> c \<le> 57"

definition hexval :: "nat \<Rightarrow> nat option" where
  "hexval c =
     (if 48 \<le> c \<and> c \<le> 57 then Some (c - 48)
      else if 97 \<le> c \<and> c \<le> 102 then Some (c - 87)
      else if 65 \<le> c \<and> c \<le> 70 then Some (c - 55)
      else None)"

fun hex4 :: "pystr \<Rightarrow> nat option" where
  "hex4 [a, b, c, d] =
     (case (hexval a, hexval b, hexval c, hexval d) of
        (Some x, Some y, Some z, Some w) \<Rightarrow> Some (((x * 16 + y) * 16 + z) * 16 + w)
      | _ \<Rightarrow> None)"
| "hex4 _ = None"

text \<open>The one-letter escapes: \<^verbatim>\<open>" \ / b f n r t\<close>.\<close>

definition unescape :: "nat \<Rightarrow> nat option" where
  "unescape e =
     (if e = QUOTE \<or> e = BSLASH \<or> e = 47 then Some e
      else if e = 98 then Some 8
      else if e = 102 then Some 12
      else if e = 110 then Some 10
      else if e = 114 then Some 13
      else if e = 116 then Some 9
      else None)"

definition push :: "nat \<Rightarrow> (pystr \<times> pystr) option \<Rightarrow> (pystr \<times> pystr) option" where
  "push d r = map_option (\<lambda>(s, rest). (d # s, rest)) r"

text \<open>
  The escape \<^verbatim>\<open>\uXXXX\<close> at the start of a text, if there is one: the value of its four
  hexadecimal digits.
\<close>

definition low_escape :: "pystr \<Rightarrow> nat option" where
  "low_escape x = (if take 2 x = [BSLASH, 117] then hex4 (take 4 (drop 2 x)) else None)"

text \<open>
  One character of a string literal, at the start of a text that does not start with
  the closing quote: the character it denotes and the text after it.  A control
  character (up to U+001F) is refused; \<^verbatim>\<open>\uXXXX\<close> takes four hexadecimal digits, and a
  high surrogate followed by an escaped low surrogate is joined with it.
\<close>

definition read_char :: "pystr \<Rightarrow> (nat \<times> pystr) option" where
  "read_char s =
     (case s of
        [] \<Rightarrow> None
      | c # cs \<Rightarrow>
          if c = BSLASH then
            (case cs of
               [] \<Rightarrow> None
             | e # es \<Rightarrow>
                 if e = 117 then
                   (case hex4 (take 4 es) of
                      None \<Rightarrow> None
                    | Some u \<Rightarrow>
                        (case (if 55296 \<le> u \<and> u \<le> 56319 then low_escape (drop 4 es) else None) of
                           None \<Rightarrow> Some (u, drop 4 es)
                         | Some u2 \<Rightarrow>
                             if 56320 \<le> u2 \<and> u2 \<le> 57343
                             then Some (65536 + ((u - 55296) * 1024 + (u2 - 56320)), drop 10 es)
                             else Some (u, drop 4 es)))
                 else (case unescape e of
                         None \<Rightarrow> None
                       | Some d \<Rightarrow> Some (d, es)))
          else if c \<le> 31 then None
          else Some (c, cs))"

lemma read_char_length:
  assumes "read_char (c # cs) = Some (d, rest)"
  shows "length rest < Suc (length cs)"
proof (cases "c = BSLASH")
  case False
  with assms show ?thesis by (auto simp: read_char_def split: if_splits)
next
  case True
  with assms obtain e es where cs: "cs = e # es"
    by (cases cs) (auto simp: read_char_def)
  have "length (drop 4 es) \<le> length es" and "length (drop 10 es) \<le> length es" by simp_all
  with assms True cs show ?thesis
    by (auto simp: read_char_def split: if_splits option.splits)
qed

text \<open>
  \<^verbatim>\<open>scanstring(s, end, strict=True)\<close>: the argument is the text after the opening quote, the
  result the decoded string and the text after the closing quote.
\<close>

function scan_string :: "pystr \<Rightarrow> (pystr \<times> pystr) option" where
  "scan_string [] = None"
| "scan_string (c # cs) =
     (if c = QUOTE then Some ([], cs)
      else (case read_char (c # cs) of
              None \<Rightarrow> None
            | Some (d, rest) \<Rightarrow> push d (scan_string rest)))"
  by pat_completeness auto
termination
  by (relation "measure length") (auto dest: read_char_length)

definition digits_val :: "pystr \<Rightarrow> int" where
  "digits_val ds = foldl (\<lambda>a d. 10 * a + int (d - 48)) 0 ds"

text \<open>The exponent \<^verbatim>\<open>([eE][-+]?\d+)?\<close>: its text (empty when there is none) and the rest.\<close>

definition scan_exp :: "pystr \<Rightarrow> pystr \<times> pystr" where
  "scan_exp r =
     (case r of
        [] \<Rightarrow> ([], r)
      | e # es \<Rightarrow>
          if e = 101 \<or> e = 69 then
            (let (sg, es') = (case es of
                                [] \<Rightarrow> ([], es)
                              | s # t \<Rightarrow> if s = 43 \<or> s = 45 then ([s], t) else ([], es));
                 ds = takeWhile is_digit es'
             in if ds = [] then ([], r) else (e # sg @ ds, dropWhile is_digit es'))
          else ([], r))"

text \<open>The fraction \<^verbatim>\<open>(\.\d+)?\<close>.\<close>

definition scan_frac :: "pystr \<Rightarrow> pystr \<times> pystr" where
  "scan_frac r =
     (case r of
        a # b # bs \<Rightarrow>
          if a = 46 \<and> is_digit b then (a # takeWhile is_digit (b # bs), dropWhile is_digit (b # bs))
          else ([], r)
      | _ \<Rightarrow> ([], r))"

text \<open>
  A number, \<^verbatim>\<open>(-?(?:0|[1-9]\d*))(\.\d+)?([eE][-+]?\d+)?\<close> with ASCII digits: an \<^verbatim>\<open>int\<close> when
  it has neither fraction nor exponent, a \<^verbatim>\<open>float\<close> otherwise.
\<close>

definition scan_number :: "pystr \<Rightarrow> (json \<times> pystr) option" where
  "scan_number s =
     (let (neg, s1) = (case s of [] \<Rightarrow> (False, s) | c # cs \<Rightarrow> if c = 45 then (True, cs) else (False, s))
      in case s1 of
           [] \<Rightarrow> None
         | d # ds \<Rightarrow>
             if 48 \<le> d \<and> d \<le> 57 then
               (let ip = (if d = 48 then [d] else d # takeWhile is_digit ds);
                    r1 = (if d = 48 then ds else dropWhile is_digit ds);
                    (frac, r2) = scan_frac r1;
                    (ex, r3) = scan_exp r2
                in Some (if frac = [] \<and> ex = []
                         then JInt (if neg then - digits_val ip else digits_val ip)
                         else JFloat ((if neg then [45] else []) @ ip @ frac @ ex), r3))
             else None)"

subsection \<open>Tokens\<close>

datatype tok = TLBrace | TRBrace | TLBrack | TRBrack | TComma | TColon | TStr pystr | TAtom json

definition tcons :: "tok \<Rightarrow> tok list option \<Rightarrow> tok list option" where
  "tcons t r = map_option ((#) t) r"

lemma push_length:
  "push d r = Some (s, rest) \<Longrightarrow> \<exists>s'. r = Some (s', rest)"
  by (cases r) (auto simp: push_def)

lemma scan_string_length:
  "scan_string cs = Some (s, rest) \<Longrightarrow> length rest < Suc (length cs)"
proof (induction cs arbitrary: s rule: scan_string.induct)
  case 1
  then show ?case by simp
next
  case (2 c cs)
  show ?case
  proof (cases "c = QUOTE")
    case True
    with "2.prems" show ?thesis by simp
  next
    case False
    with "2.prems" obtain d r where r: "read_char (c # cs) = Some (d, r)"
      by (cases "read_char (c # cs)") auto
    with False "2.prems" obtain s' where s': "scan_string r = Some (s', rest)"
      by (auto dest: push_length)
    from "2.IH"[OF False r refl s'] read_char_length[OF r] show ?thesis by simp
  qed
qed

lemma scan_frac_length: "scan_frac r = (f, r2) \<Longrightarrow> length r2 \<le> length r"
proof (cases r)
  case Nil
  then show "scan_frac r = (f, r2) \<Longrightarrow> ?thesis" by (simp add: scan_frac_def)
next
  case (Cons a as)
  assume h: "scan_frac r = (f, r2)"
  show ?thesis
  proof (cases as)
    case Nil
    with Cons h show ?thesis by (simp add: scan_frac_def)
  next
    case c2: (Cons b bs)
    have "length (dropWhile is_digit (b # bs)) \<le> length (b # bs)"
      by (rule length_dropWhile_le)
    with Cons c2 h show ?thesis
      by (auto simp: scan_frac_def split: if_splits)
  qed
qed

lemma scan_exp_length: "scan_exp r = (x, r3) \<Longrightarrow> length r3 \<le> length r"
proof (cases r)
  case Nil
  then show "scan_exp r = (x, r3) \<Longrightarrow> ?thesis" by (simp add: scan_exp_def)
next
  case (Cons e es)
  assume h: "scan_exp r = (x, r3)"
  have a: "length (dropWhile is_digit es) \<le> length es"
    by (rule length_dropWhile_le)
  show ?thesis
  proof (cases es)
    case Nil
    with Cons h show ?thesis by (auto simp: scan_exp_def split: if_splits)
  next
    case c2: (Cons g t)
    have "length (dropWhile is_digit t) \<le> length t"
      by (rule length_dropWhile_le)
    with a Cons c2 h show ?thesis
      by (auto simp: scan_exp_def Let_def split: if_splits)
  qed
qed

lemma scan_number_length:
  assumes "scan_number (c # cs) = Some (v, rest)"
  shows "length rest < Suc (length cs)"
proof -
  define s1 where "s1 = (if c = 45 then cs else c # cs)"
  have s1: "length s1 \<le> Suc (length cs)" by (simp add: s1_def)
  from assms obtain d ds where d: "s1 = d # ds"
    by (cases s1) (auto simp: scan_number_def s1_def split: if_splits)
  define r1 where "r1 = (if d = 48 then ds else dropWhile is_digit ds)"
  have "length (dropWhile is_digit ds) \<le> length ds" by (rule length_dropWhile_le)
  then have r1: "length r1 \<le> length ds" by (simp add: r1_def)
  obtain f r2 where f: "scan_frac r1 = (f, r2)" by (cases "scan_frac r1")
  obtain x r3 where x: "scan_exp r2 = (x, r3)" by (cases "scan_exp r2")
  from assms d f x have "rest = r3"
    by (auto simp: scan_number_def s1_def r1_def Let_def split: if_splits)
  moreover have "length r3 \<le> length ds"
    using scan_frac_length[OF f] scan_exp_length[OF x] r1 by simp
  ultimately show ?thesis using s1 d by simp
qed

subsection \<open>The lexer\<close>

text \<open>
  The text as a list of tokens: \<open>next_token\<close> reads one token at the start of a text
  and returns it with the text that follows.  Whitespace (space, tab, newline, carriage
  return) separates tokens; the constants \<^verbatim>\<open>NaN\<close>, \<^verbatim>\<open>Infinity\<close> and \<^verbatim>\<open>-Infinity\<close> are floats.
\<close>

definition next_token :: "pystr \<Rightarrow> (tok \<times> pystr) option" where
  "next_token s =
     (case s of
        [] \<Rightarrow> None
      | c # cs \<Rightarrow>
          if c = 123 then Some (TLBrace, cs)
          else if c = 125 then Some (TRBrace, cs)
          else if c = 91 then Some (TLBrack, cs)
          else if c = 93 then Some (TRBrack, cs)
          else if c = 44 then Some (TComma, cs)
          else if c = 58 then Some (TColon, cs)
          else if c = QUOTE then
            (case scan_string cs of
               None \<Rightarrow> None
             | Some (str, rest) \<Rightarrow> Some (TStr str, rest))
          else if starts_with (ascii ''null'') s then Some (TAtom JNull, drop 4 s)
          else if starts_with (ascii ''true'') s then Some (TAtom (JBool True), drop 4 s)
          else if starts_with (ascii ''false'') s then Some (TAtom (JBool False), drop 5 s)
          else if starts_with (ascii ''NaN'') s then Some (TAtom (JFloat (ascii ''NaN'')), drop 3 s)
          else if starts_with (ascii ''Infinity'') s
            then Some (TAtom (JFloat (ascii ''Infinity'')), drop 8 s)
          else if starts_with (ascii ''-Infinity'') s
            then Some (TAtom (JFloat (ascii ''-Infinity'')), drop 9 s)
          else (case scan_number s of
                  None \<Rightarrow> None
                | Some (v, rest) \<Rightarrow> Some (TAtom v, rest)))"

lemma next_token_length:
  assumes "next_token (c # cs) = Some (t, rest)"
  shows "length rest < Suc (length cs)"
proof (cases "c = QUOTE")
  case True
  with assms obtain str where "scan_string cs = Some (str, rest)"
    by (auto simp: next_token_def split: option.splits)
  then show ?thesis by (rule scan_string_length)
next
  case False
  show ?thesis
  proof (cases "scan_number (c # cs)")
    case None
    with assms False show ?thesis
      by (auto simp: next_token_def split: if_splits)
  next
    case (Some p)
    obtain v r where p: "p = (v, r)" by (cases p)
    from Some p have "length r < Suc (length cs)" by (simp add: scan_number_length)
    with assms False Some p show ?thesis
      by (auto simp: next_token_def split: if_splits)
  qed
qed

function lex_json :: "pystr \<Rightarrow> tok list option" where
  "lex_json [] = Some []"
| "lex_json (c # cs) =
     (if is_json_ws c then lex_json cs
      else (case next_token (c # cs) of
              None \<Rightarrow> None
            | Some (t, rest) \<Rightarrow> tcons t (lex_json rest)))"
  by pat_completeness auto
termination
  by (relation "measure length") (auto dest: next_token_length)

subsection \<open>The parser\<close>

text \<open>
  The grammar of \<^verbatim>\<open>JSONObject\<close>, \<^verbatim>\<open>JSONArray\<close> and \<^verbatim>\<open>scan_once\<close> as a pushdown automaton over
  the tokens: the stack holds the containers that are open, the mode what may come next.
\<close>

datatype frame =
    InArr "json list"
  | InObj "(pystr \<times> json) list"
  | InKey "(pystr \<times> json) list" pystr

datatype mode = MValue | MArrFirst | MObjFirst | MKey | MColon pystr | MSep | MDone json

text \<open>A value is complete: it is the result, or goes into the innermost open container.\<close>

fun finish :: "json \<Rightarrow> frame list \<Rightarrow> (mode \<times> frame list) option" where
  "finish v [] = Some (MDone v, [])"
| "finish v (InArr vs # st) = Some (MSep, InArr (vs @ [v]) # st)"
| "finish v (InKey ps k # st) = Some (MSep, InObj (ps @ [(k, v)]) # st)"
| "finish v (InObj ps # st) = None"

definition value_tok :: "bool \<Rightarrow> frame list \<Rightarrow> tok \<Rightarrow> (mode \<times> frame list) option" where
  "value_tok first st t =
     (case t of
        TAtom v \<Rightarrow> finish v st
      | TStr s \<Rightarrow> finish (JStr s) st
      | TLBrack \<Rightarrow> Some (MArrFirst, InArr [] # st)
      | TLBrace \<Rightarrow> Some (MObjFirst, InObj [] # st)
      | TRBrack \<Rightarrow> (if first then (case st of InArr vs # r \<Rightarrow> finish (JArr vs) r | _ \<Rightarrow> None)
                     else None)
      | _ \<Rightarrow> None)"

definition pstep :: "mode \<times> frame list \<Rightarrow> tok \<Rightarrow> (mode \<times> frame list) option" where
  "pstep s t =
     (case s of (m, st) \<Rightarrow>
        (case m of
           MValue \<Rightarrow> value_tok False st t
         | MArrFirst \<Rightarrow> value_tok True st t
         | MObjFirst \<Rightarrow>
             (case t of
                TStr k \<Rightarrow> Some (MColon k, st)
              | TRBrace \<Rightarrow> (case st of InObj ps # r \<Rightarrow> finish (JObj (py_dict ps)) r | _ \<Rightarrow> None)
              | _ \<Rightarrow> None)
         | MKey \<Rightarrow> (case t of TStr k \<Rightarrow> Some (MColon k, st) | _ \<Rightarrow> None)
         | MColon k \<Rightarrow>
             (case t of
                TColon \<Rightarrow> (case st of InObj ps # r \<Rightarrow> Some (MValue, InKey ps k # r) | _ \<Rightarrow> None)
              | _ \<Rightarrow> None)
         | MSep \<Rightarrow>
             (case st of
                InArr vs # r \<Rightarrow>
                  (case t of
                     TComma \<Rightarrow> Some (MValue, st)
                   | TRBrack \<Rightarrow> finish (JArr vs) r
                   | _ \<Rightarrow> None)
              | InObj ps # r \<Rightarrow>
                  (case t of
                     TComma \<Rightarrow> Some (MKey, st)
                   | TRBrace \<Rightarrow> finish (JObj (py_dict ps)) r
                   | _ \<Rightarrow> None)
              | _ \<Rightarrow> None)
         | MDone v \<Rightarrow> None))"

fun parse_toks :: "mode \<times> frame list \<Rightarrow> tok list \<Rightarrow> json option" where
  "parse_toks s [] = (case s of (MDone v, []) \<Rightarrow> Some v | _ \<Rightarrow> None)"
| "parse_toks s (t # ts) = (case pstep s t of None \<Rightarrow> None | Some s' \<Rightarrow> parse_toks s' ts)"

text \<open>
  The exceptions of the normalizer: \<^verbatim>\<open>ValueError(message)\<close>, and \<^verbatim>\<open>json.JSONDecodeError\<close>
  with its attribute \<^verbatim>\<open>doc\<close>, the text that was being parsed.
\<close>

datatype exn = ValueError pystr | JSONDecodeError pystr

definition json_loads :: "pystr \<Rightarrow> exn + json" where
  "json_loads s =
     (case lex_json s of
        None \<Rightarrow> Inl (JSONDecodeError s)
      | Some ts \<Rightarrow>
          (case parse_toks (MValue, []) ts of
             None \<Rightarrow> Inl (JSONDecodeError s)
           | Some v \<Rightarrow> Inr v))"

section \<open>The normalizer: \<^verbatim>\<open>parse_gemini_json\<close>\<close>

text \<open>
  \<^verbatim>\<open>
  def parse_gemini_json(raw_text: str):
      raw_text = raw_text.strip()
      if not raw_text:
          raise ValueError("Empty Gemini response")
      try:
          return json.loads(raw_text)
      except json.JSONDecodeError:
          cleaned = clean_json_text(raw_text)
          return json.loads(cleaned)
  \<close>
\<close>

definition parse_gemini_json :: "pystr \<Rightarrow> exn + json" where
  "parse_gemini_json raw_text =
     (let raw_text = py_strip raw_text
      in if raw_text = [] then Inl (ValueError (ascii ''Empty Gemini response''))
         else (case json_loads raw_text of
                 Inr v \<Rightarrow> Inr v
               | Inl (JSONDecodeError _) \<Rightarrow> json_loads (clean_json_text raw_text)
               | Inl e \<Rightarrow> Inl e))"

section \<open>The project packager\<close>

text \<open>
  Bytes are lists of 8-bit characters.  The content of a packaged file is a \<^verbatim>\<open>str\<close> (the
  generated source, the readme) or \<^verbatim>\<open>bytes\<close> (an uploaded file).
\<close>

type_synonym bytes = "char list"

datatype content = Str pystr | Bytes bytes

text \<open>
  An archive is the list of its members in the order they were written, each with the
  name and the data handed to \<^verbatim>\<open>ZipFile.writestr\<close> (which stores a \<^verbatim>\<open>str\<close> in its UTF-8
  encoding).  The file system maps a path to the archive stored there.
\<close>

type_synonym archive = "(pystr \<times> content) list"
type_synonym filesystem = "pystr \<Rightarrow> archive option"

definition writestr :: "archive \<Rightarrow> pystr \<Rightarrow> content \<Rightarrow> archive" where
  "writestr zf name data = zf @ [(name, data)]"

text \<open>
  \<^verbatim>\<open>
  def zip_project(files_dict):
      path = "generated_project.zip"
      with zipfile.ZipFile(path, "w") as zf:
          for name, content in files_dict.items():
              if isinstance(content, str):
                  zf.writestr(name, content)
              else:
                  zf.writestr(name, content)
      return path
  \<close>
  Mode \<^verbatim>\<open>"w"\<close> starts from an empty archive, whatever the path held before.
\<close>

definition zip_path :: pystr where
  "zip_path = ascii ''generated_project.zip''"

definition zip_project :: "(pystr \<times> content) list \<Rightarrow> filesystem \<Rightarrow> pystr \<times> filesystem" where
  "zip_project files_dict fs =
     (let path = zip_path;
          zf = foldl (\<lambda>zf (name, content).
                        (case content of
                           Str t \<Rightarrow> writestr zf name (Str t)
                         | Bytes b \<Rightarrow> writestr zf name (Bytes b)))
                     [] files_dict
      in (path, fs(path \<mapsto> zf)))"

definition dict_sets :: "('k \<times> 'v) list \<Rightarrow> ('k \<times> 'v) list \<Rightarrow> ('k \<times> 'v) list" where
  "dict_sets d ins = foldl (\<lambda>d (k, v). dict_set k v d) d ins"

section \<open>The project wizard (\<^verbatim>\<open>recog4.py\<close>, \<^verbatim>\<open>recog5.py\<close>)\<close>

subsection \<open>Session state\<close>

datatype phase = Collect | Planning | Designing | Finalize | Generate

text \<open>
  What \<^verbatim>\<open>st.file_uploader\<close> returns for one file (its name, its declared type and what
  \<^verbatim>\<open>read()\<close> gives), and the dict \<^verbatim>\<open>{"name": ..., "type": ..., "bytes": ...}\<close> the session keeps.
\<close>

record uploaded_file =
  up_name :: pystr
  up_type :: pystr
  up_read :: bytes

record file_entry =
  f_name :: pystr
  f_type :: pystr
  f_bytes :: bytes

text \<open>
  \<^verbatim>\<open>st.session_state\<close> with the keys of \<^verbatim>\<open>init_state\<close>.  Python's \<^verbatim>\<open>None\<close> is \<open>JNull\<close> for
  the two responses and \<open>None\<close> for the generated code.  (\<^verbatim>\<open>recog4.py\<close> has no
  \<^verbatim>\<open>line_range\<close>; the keys that widgets add for themselves are not modelled.)
\<close>

record session =
  phase :: phase
  user_text :: pystr
  line_range :: pystr
  uploaded_files :: "file_entry list"
  planning_response :: json
  planning_answers :: "(pystr \<times> json) list"
  design_response :: json
  design_answers :: "(pystr \<times> json) list"
  generated_code :: "pystr option"
  project_files :: "(pystr \<times> content) list"

text \<open>
  The defaults of \<^verbatim>\<open>init_state\<close>.  It uses \<^verbatim>\<open>setdefault\<close>, so on a session that has its
  keys it changes nothing; after every key was deleted it yields these values.
\<close>

definition defaults :: session where
  "defaults =
     \<lparr> phase = Collect, user_text = [], line_range = [], uploaded_files = [],
       planning_response = JNull, planning_answers = [],
       design_response = JNull, design_answers = [],
       generated_code = None, project_files = [] \<rparr>"

subsection \<open>Truth values, \<^verbatim>\<open>.get\<close>, subscripts and iteration of parsed values\<close>

text \<open>
  A float literal denotes zero when its digits are all zero, or when its value is at most
  \<open>2 ^ - 1075\<close>, half the least positive float, so that it rounds to zero.
\<close>

definition float_is_zero :: "pystr \<Rightarrow> bool" where
  "float_is_zero lit =
     (let l1 = (case lit of [] \<Rightarrow> [] | c # cs \<Rightarrow> if c = 45 then cs else lit);
          ip = takeWhile is_digit l1;
          r1 = dropWhile is_digit l1;
          fd = (case r1 of [] \<Rightarrow> [] | c # cs \<Rightarrow> if c = 46 then takeWhile is_digit cs else []);
          r2 = (case r1 of [] \<Rightarrow> [] | c # cs \<Rightarrow> if c = 46 then dropWhile is_digit cs else r1);
          ex = (case r2 of
                  [] \<Rightarrow> 0
                | e # es \<Rightarrow>
                    (case es of
                       [] \<Rightarrow> 0
                     | g # t \<Rightarrow> if g = 45 then - digits_val t
                               else if g = 43 then digits_val t
                               else digits_val es));
          m = digits_val (ip @ fd);
          k = ex - int (length fd)
      in ip \<noteq> [] \<and> (m = 0 \<or> (k < 0 \<and> m * 2 ^ 1075 \<le> 10 ^ nat (- k))))"

text \<open>\<^verbatim>\<open>bool(v)\<close>, as \<^verbatim>\<open>if not v\<close> tests it.\<close>

fun truthy :: "json \<Rightarrow> bool" where
  "truthy JNull = False"
| "truthy (JBool b) = b"
| "truthy (JInt n) = (n \<noteq> 0)"
| "truthy (JFloat l) = (\<not> float_is_zero l)"
| "truthy (JStr s) = (s \<noteq> [])"
| "truthy (JArr vs) = (vs \<noteq> [])"
| "truthy (JObj ps) = (ps \<noteq> [])"

text \<open>The exceptions other than those of the normalizer are kept by their class.\<close>

datatype failure =
    Raised exn
  | AttributeError
  | KeyError
  | TypeError
  | ServiceError pystr

text \<open>\<^verbatim>\<open>v.get(key, default)\<close>: only a dict has the method.\<close>

fun dict_get :: "json \<Rightarrow> pystr \<Rightarrow> json \<Rightarrow> failure + json" where
  "dict_get (JObj ps) key dflt = Inr (case map_of ps key of None \<Rightarrow> dflt | Some v \<Rightarrow> v)"
| "dict_get _ key dflt = Inl AttributeError"

text \<open>\<^verbatim>\<open>v[key]\<close> with a \<^verbatim>\<open>str\<close> key.\<close>

fun subscript :: "json \<Rightarrow> pystr \<Rightarrow> failure + json" where
  "subscript (JObj ps) key = (case map_of ps key of None \<Rightarrow> Inl KeyError | Some v \<Rightarrow> Inr v)"
| "subscript _ key = Inl TypeError"

text \<open>\<^verbatim>\<open>for q in v\<close>: a list gives its elements, a dict its keys, a \<^verbatim>\<open>str\<close> its characters.\<close>

fun py_iter :: "json \<Rightarrow> failure + json list" where
  "py_iter (JArr vs) = Inr vs"
| "py_iter (JObj ps) = Inr (map (\<lambda>p. JStr (fst p)) ps)"
| "py_iter (JStr s) = Inr (map (\<lambda>c. JStr [c]) s)"
| "py_iter _ = Inl TypeError"

subsection \<open>One run of the script\<close>

datatype button =
    StartPlanning
  | ResetProject
  | ConfirmPlanning
  | ConfirmDesign
  | GenerateProject
  | StartNewProject
  | RetryPlanning
  | RetryDesign

text \<open>
  What \<^verbatim>\<open>client.models.generate_content\<close> does when it is called: it raises, or returns a
  response whose \<^verbatim>\<open>text\<close> is a \<^verbatim>\<open>str\<close> or \<^verbatim>\<open>None\<close>.
\<close>

datatype reply = Fails pystr | Text "pystr option"

text \<open>
  The environment of one run: the values of the widgets, the button whose click started
  the run (a button returns \<^verbatim>\<open>True\<close> only then), and the service.  \<open>fmt\<close> is the
  formatting of a value inside an f-string, \<open>select\<close> the selection a question's widget
  returns for its key and options.
\<close>

record inputs =
  api_key :: pystr
  in_user_text :: pystr
  in_line_range :: pystr
  in_uploaded :: "uploaded_file list"
  clicked :: "button option"
  gateway :: reply
  fmt :: "json \<Rightarrow> pystr"
  select :: "pystr \<Rightarrow> json \<Rightarrow> json"
  note_text :: "pystr \<Rightarrow> pystr"

text \<open>
  How a run ends: at the end of the script, by \<^verbatim>\<open>st.rerun()\<close>, by \<^verbatim>\<open>st.stop()\<close>, or by an
  exception nobody catches.  (\<^verbatim>\<open>st.rerun()\<close> and \<^verbatim>\<open>st.stop()\<close> are not caught by
  \<^verbatim>\<open>except Exception\<close>.)
\<close>

datatype ctl = Continue | Rerun | Stop | Crash failure

text \<open>What a run shows, as far as errors, raw text and buttons are concerned.\<close>

datatype message =
    EnterApiKey
  | InvalidJsonOrError failure
  | JsonParseError failure
  | CodeGenError failure
  | EmptyResponse
  | InvalidJsonAfterRepair
  | InvalidJsonAfterAutoFix
  | PlanningError failure
  | DesigningError failure
  | EmptyCode

datatype ui = StWarning message | StError message | StCode pystr | StButton button

text \<open>\<^verbatim>\<open>getattr(resp, "text", "").strip()\<close> after the call; \<^verbatim>\<open>None\<close> has no \<^verbatim>\<open>strip\<close>.\<close>

definition response_text :: "reply \<Rightarrow> failure + pystr" where
  "response_text r =
     (case r of
        Fails m \<Rightarrow> Inl (ServiceError m)
      | Text None \<Rightarrow> Inl AttributeError
      | Text (Some t) \<Rightarrow> Inr (py_strip t))"

text \<open>
  \<^verbatim>\<open>
  if uploaded:
      st.session_state.uploaded_files = [
          {"name": f.name, "type": f.type, "bytes": f.read()} for f in uploaded
      ]
  \<close>
  (the same lines in \<^verbatim>\<open>recog4.py\<close> and \<^verbatim>\<open>recog5.py\<close>)
\<close>

definition store_uploads :: "uploaded_file list \<Rightarrow> session \<Rightarrow> session" where
  "store_uploads uploaded s =
     (if uploaded \<noteq> []
      then s\<lparr>uploaded_files :=
               map (\<lambda>f. \<lparr>f_name = up_name f, f_type = up_type f, f_bytes = up_read f\<rparr>) uploaded\<rparr>
      else s)"

text \<open>
  The left column of \<^verbatim>\<open>recog5.py\<close>: the two text inputs, the uploader, and the button
  that starts planning (in phase collect) or resets the project (in every other phase).
  \<^verbatim>\<open>
  if st.session_state.phase == "collect":
      if st.button("Start Planning Phase"):
          st.session_state.phase = "planning"
          st.rerun()
  else:
      if st.button("Reset Project"):
          for k in list(st.session_state.keys()):
              del st.session_state[k]
          init_state()
          st.rerun()
  \<close>
\<close>

definition left_column :: "inputs \<Rightarrow> session \<Rightarrow> ctl \<times> session" where
  "left_column i s =
     (let s1 = s\<lparr>user_text := in_user_text i\<rparr>;
          s2 = s1\<lparr>line_range := in_line_range i\<rparr>;
          s3 = store_uploads (in_uploaded i) s2
      in if phase s3 = Collect
         then (if clicked i = Some StartPlanning then (Rerun, s3\<lparr>phase := Planning\<rparr>)
               else (Continue, s3))
         else (if clicked i = Some ResetProject then (Rerun, defaults)
               else (Continue, s3)))"

text \<open>
  The loop over the questions of a response:
  \<^verbatim>\<open>
  for q in data.get("questions", []):
      key = f"plan_q_{q['id']}"
      st.session_state.planning_answers[key] = st.multiselect(
          f"{q['id']}. {q['question']}", q.get("options", []), key=key)
  \<close>
  It returns the answers as far as they were stored, and the exception that ended it, if
  any.
\<close>

fun render_questions ::
  "inputs \<Rightarrow> pystr \<Rightarrow> json list \<Rightarrow> (pystr \<times> json) list \<Rightarrow> failure option \<times> (pystr \<times> json) list"
where
  "render_questions i pre [] answers = (None, answers)"
| "render_questions i pre (q # qs) answers =
     (case subscript q (ascii ''id'') of
        Inl e \<Rightarrow> (Some e, answers)
      | Inr qid \<Rightarrow>
          (case subscript q (ascii ''question'') of
             Inl e \<Rightarrow> (Some e, answers)
           | Inr _ \<Rightarrow>
               (case dict_get q (ascii ''options'') (JArr []) of
                  Inl e \<Rightarrow> (Some e, answers)
                | Inr opts \<Rightarrow>
                    (let key = pre @ fmt i qid
                     in render_questions i pre qs (dict_set key (select i key opts) answers)))))"

text \<open>
  The view of a cached response: the summary, the questions, the free-text notes.  It
  gives the answers and the exception that ended it, if any.
  \<^verbatim>\<open>
  data = st.session_state.planning_response
  st.write(data.get("plan_text", ""))
  for q in data.get("questions", []): ...
  st.session_state.planning_answers["plan_additional"] = st.text_area(
      data.get("additional_prompt", "Any other notes?"),
      value=st.session_state.planning_answers.get("plan_additional", ""))
  \<close>
\<close>

definition render_response ::
  "inputs \<Rightarrow> pystr \<Rightarrow> pystr \<Rightarrow> pystr \<Rightarrow> json \<Rightarrow> (pystr \<times> json) list
     \<Rightarrow> failure option \<times> (pystr \<times> json) list"
where
  "render_response i text_key pre extra data answers =
     (case dict_get data text_key (JStr []) of
        Inl e \<Rightarrow> (Some e, answers)
      | Inr _ \<Rightarrow>
          (case dict_get data (ascii ''questions'') (JArr []) of
             Inl e \<Rightarrow> (Some e, answers)
           | Inr qs \<Rightarrow>
               (case py_iter qs of
                  Inl e \<Rightarrow> (Some e, answers)
                | Inr qlist \<Rightarrow>
                    (case render_questions i pre qlist answers of
                       (Some e, answers') \<Rightarrow> (Some e, answers')
                     | (None, answers') \<Rightarrow>
                         (None, dict_set extra (JStr (note_text i extra)) answers')))))"

subsection \<open>Planning\<close>

text \<open>
  \<^verbatim>\<open>recog5.py\<close>, no planning response cached:
  \<^verbatim>\<open>
  try:
      resp = client.models.generate_content(model=..., contents=[planning_prompt])
      raw_text = getattr(resp, "text", "").strip()
      parsed = parse_gemini_json(raw_text)
      st.session_state.planning_response = parsed
      st.rerun()
  except Exception as e:
      st.error(f"Gemini returned invalid JSON or error: {e}")
      st.stop()
  \<close>
\<close>

definition planning_fetch5 :: "inputs \<Rightarrow> session \<Rightarrow> ctl \<times> session \<times> ui list" where
  "planning_fetch5 i s =
     (case response_text (gateway i) of
        Inl e \<Rightarrow> (Stop, s, [StError (InvalidJsonOrError e)])
      | Inr raw_text \<Rightarrow>
          (case parse_gemini_json raw_text of
             Inl e \<Rightarrow> (Stop, s, [StError (InvalidJsonOrError (Raised e))])
           | Inr parsed \<Rightarrow> (Rerun, s\<lparr>planning_response := parsed\<rparr>, [])))"

text \<open>
  \<^verbatim>\<open>recog4.py\<close>, no planning response cached:
  \<^verbatim>\<open>
  try:
      resp = client.models.generate_content(model=..., contents=[planning_prompt])
      raw_text = getattr(resp, "text", "").strip()
      if not raw_text:
          st.error("Gemini returned an empty response.")
          st.stop()
      try:
          parsed = parse_gemini_json(raw_text)
          st.session_state.planning_response = parsed
          st.rerun()
      except Exception as e:
          st.error("Gemini returned invalid JSON after repair:")
          st.code(raw_text, language="json")
          if st.button("Retry Planning"):
              st.session_state.planning_response = None
              st.rerun()
          st.stop()
  except Exception as e:
      st.error(f"Gemini error during planning: {e}")
      st.stop()
  \<close>
\<close>

definition planning_fetch4 :: "inputs \<Rightarrow> session \<Rightarrow> ctl \<times> session \<times> ui list" where
  "planning_fetch4 i s =
     (case response_text (gateway i) of
        Inl e \<Rightarrow> (Stop, s, [StError (PlanningError e)])
      | Inr raw_text \<Rightarrow>
          if raw_text = [] then (Stop, s, [StError EmptyResponse])
          else
            (case parse_gemini_json raw_text of
               Inr parsed \<Rightarrow> (Rerun, s\<lparr>planning_response := parsed\<rparr>, [])
             | Inl e \<Rightarrow>
                 (let shown = [StError InvalidJsonAfterRepair, StCode raw_text, StButton RetryPlanning]
                  in if clicked i = Some RetryPlanning
                     then (Rerun, s\<lparr>planning_response := JNull\<rparr>, shown)
                     else (Stop, s, shown))))"

text \<open>
  \<^verbatim>\<open>recog5.py\<close>, a planning response is cached: the view, then
  \<^verbatim>\<open>
  if st.button("Confirm Planning -> Designing"):
      st.session_state.phase = "designing"
      st.rerun()
  \<close>
\<close>

definition planning_view :: "inputs \<Rightarrow> session \<Rightarrow> ctl \<times> session \<times> ui list" where
  "planning_view i s =
     (case render_response i (ascii ''plan_text'') (ascii ''plan_q_'') (ascii ''plan_additional'')
             (planning_response s) (planning_answers s) of
        (Some e, answers) \<Rightarrow> (Crash e, s\<lparr>planning_answers := answers\<rparr>, [])
      | (None, answers) \<Rightarrow>
          (let s1 = s\<lparr>planning_answers := answers\<rparr>
           in if clicked i = Some ConfirmPlanning
              then (Rerun, s1\<lparr>phase := Designing\<rparr>, [StButton ConfirmPlanning])
              else (Continue, s1, [StButton ConfirmPlanning])))"

subsection \<open>Designing\<close>

text \<open>
  \<^verbatim>\<open>recog5.py\<close>, no design response cached.  The prompt is built before the \<^verbatim>\<open>try\<close>, and
  reads \<^verbatim>\<open>st.session_state.planning_response.get('plan_text','')\<close>.
  \<^verbatim>\<open>
  try:
      resp = client.models.generate_content(model=..., contents=[design_prompt])
      raw = getattr(resp, "text", "").strip()
      parsed = parse_gemini_json(raw)
      st.session_state.design_response = parsed
      st.rerun()
  except Exception as e:
      st.error(f"Gemini JSON parse error: {e}")
      st.stop()
  \<close>
\<close>

definition design_fetch5 :: "inputs \<Rightarrow> session \<Rightarrow> ctl \<times> session \<times> ui list" where
  "design_fetch5 i s =
     (case dict_get (planning_response s) (ascii ''plan_text'') (JStr []) of
        Inl e \<Rightarrow> (Crash e, s, [])
      | Inr _ \<Rightarrow>
          (case response_text (gateway i) of
             Inl e \<Rightarrow> (Stop, s, [StError (JsonParseError e)])
           | Inr raw \<Rightarrow>
               (case parse_gemini_json raw of
                  Inl e \<Rightarrow> (Stop, s, [StError (JsonParseError (Raised e))])
                | Inr parsed \<Rightarrow> (Rerun, s\<lparr>design_response := parsed\<rparr>, []))))"

definition design_view :: "inputs \<Rightarrow> session \<Rightarrow> ctl \<times> session \<times> ui list" where
  "design_view i s =
     (case render_response i (ascii ''design_text'') (ascii ''design_q_'') (ascii ''design_additional'')
             (design_response s) (design_answers s) of
        (Some e, answers) \<Rightarrow> (Crash e, s\<lparr>design_answers := answers\<rparr>, [])
      | (None, answers) \<Rightarrow>
          (let s1 = s\<lparr>design_answers := answers\<rparr>
           in if clicked i = Some ConfirmDesign
              then (Rerun, s1\<lparr>phase := Finalize\<rparr>, [StButton ConfirmDesign])
              else (Continue, s1, [StButton ConfirmDesign])))"

subsection \<open>Final review\<close>

text \<open>
  \<^verbatim>\<open>
  st.write(st.session_state.planning_response.get("plan_text", ""))
  st.write(st.session_state.design_response.get("design_text", ""))
  if st.button("Generate Streamlit Project"):
      st.session_state.phase = "generate"
      st.rerun()
  \<close>
\<close>

definition finalize_view :: "inputs \<Rightarrow> session \<Rightarrow> ctl \<times> session \<times> ui list" where
  "finalize_view i s =
     (case dict_get (planning_response s) (ascii ''plan_text'') (JStr []) of
        Inl e \<Rightarrow> (Crash e, s, [])
      | Inr _ \<Rightarrow>
          (case dict_get (design_response s) (ascii ''design_text'') (JStr []) of
             Inl e \<Rightarrow> (Crash e, s, [])
           | Inr _ \<Rightarrow>
               if clicked i = Some GenerateProject
               then (Rerun, s\<lparr>phase := Generate\<rparr>, [StButton GenerateProject])
               else (Continue, s, [StButton GenerateProject])))"

subsection \<open>Code generation\<close>

text \<open>
  \<^verbatim>\<open>
  files = {
      "generated_app.py": code,
      "README.md": "# Auto-generated Streamlit Project\nCreated via Gemini Project Maker ...",
  }
  for f in st.session_state.uploaded_files:
      files[f["name"]] = f["bytes"]
  \<close>
\<close>

definition readme4 :: pystr where
  "readme4 = ascii ''# Auto-generated Streamlit Project'' @ [NL]
             @ ascii ''Created via Gemini Project Maker.''"

definition readme5 :: pystr where
  "readme5 = ascii ''# Auto-generated Streamlit Project'' @ [NL]
             @ ascii ''Created via Gemini Project Maker (Advanced Edition).''"

definition assemble_files :: "pystr \<Rightarrow> pystr \<Rightarrow> file_entry list \<Rightarrow> (pystr \<times> content) list" where
  "assemble_files readme code ups =
     dict_sets [(ascii ''generated_app.py'', Str code), (ascii ''README.md'', Str readme)]
       (map (\<lambda>f. (f_name f, Bytes (f_bytes f))) ups)"

text \<open>
  \<^verbatim>\<open>recog5.py\<close>, no code generated yet:
  \<^verbatim>\<open>
  try:
      resp = client.models.generate_content(model=..., contents=[code_prompt])
      code = getattr(resp, "text", "").strip()
      st.session_state.generated_code = code
      files = ...
      st.session_state.project_files = files
      st.rerun()
  except Exception as e:
      st.error(f"Gemini error during code generation: {e}")
      st.stop()
  \<close>
\<close>

definition generate_fetch5 :: "inputs \<Rightarrow> session \<Rightarrow> ctl \<times> session \<times> ui list" where
  "generate_fetch5 i s =
     (case response_text (gateway i) of
        Inl e \<Rightarrow> (Stop, s, [StError (CodeGenError e)])
      | Inr code \<Rightarrow>
          (let s1 = s\<lparr>generated_code := Some code\<rparr>;
               files = assemble_files readme5 code (uploaded_files s1)
           in (Rerun, s1\<lparr>project_files := files\<rparr>, [])))"

text \<open>
  \<^verbatim>\<open>recog4.py\<close> is the same, with its own readme and with a test of the code:
  \<^verbatim>\<open>
  code = getattr(resp, "text", "").strip()
  if not code:
      st.error("Gemini returned an empty code response.")
      st.stop()
  \<close>
\<close>

definition generate_fetch4 :: "inputs \<Rightarrow> session \<Rightarrow> ctl \<times> session \<times> ui list" where
  "generate_fetch4 i s =
     (case response_text (gateway i) of
        Inl e \<Rightarrow> (Stop, s, [StError (CodeGenError e)])
      | Inr code \<Rightarrow>
          if code = [] then (Stop, s, [StError EmptyCode])
          else
            (let s1 = s\<lparr>generated_code := Some code\<rparr>;
                 files = assemble_files readme4 code (uploaded_files s1)
             in (Rerun, s1\<lparr>project_files := files\<rparr>, [])))"

text \<open>
  The code is there: the archive is written, and
  \<^verbatim>\<open>
  if st.button("Start New Project"):
      for k in list(st.session_state.keys()):
          del st.session_state[k]
      init_state()
      st.rerun()
  \<close>
\<close>

definition generated_view ::
  "inputs \<Rightarrow> session \<Rightarrow> filesystem \<Rightarrow> ctl \<times> session \<times> filesystem \<times> ui list" where
  "generated_view i s fs =
     (let (path, fs') = zip_project (project_files s) fs
      in if clicked i = Some StartNewProject
         then (Rerun, defaults, fs', [StButton StartNewProject])
         else (Continue, s, fs', [StButton StartNewProject]))"

subsection \<open>The script \<^verbatim>\<open>recog5.py\<close>\<close>

definition with_fs :: "filesystem \<Rightarrow> ctl \<times> session \<times> ui list \<Rightarrow> ctl \<times> session \<times> filesystem \<times> ui list" where
  "with_fs fs r = (case r of (c, s, out) \<Rightarrow> (c, s, fs, out))"

definition right_column5 ::
  "inputs \<Rightarrow> session \<Rightarrow> filesystem \<Rightarrow> ctl \<times> session \<times> filesystem \<times> ui list" where
  "right_column5 i s fs =
     (case phase s of
        Planning \<Rightarrow>
          with_fs fs (if \<not> truthy (planning_response s) then planning_fetch5 i s
                      else planning_view i s)
      | Designing \<Rightarrow>
          with_fs fs (if \<not> truthy (design_response s) then design_fetch5 i s
                      else design_view i s)
      | Finalize \<Rightarrow> with_fs fs (finalize_view i s)
      | Generate \<Rightarrow>
          (if generated_code s = None \<or> generated_code s = Some []
           then with_fs fs (generate_fetch5 i s)
           else generated_view i s fs)
      | Collect \<Rightarrow> (Continue, s, fs, []))"

text \<open>
  One run of the script on a session: the key is asked for first, then the left column,
  then the right one.
  \<^verbatim>\<open>
  init_state()
  ...
  if not api_key:
      st.warning("Enter Gemini API key to continue.")
      st.stop()
  \<close>
\<close>

definition run5 ::
  "inputs \<Rightarrow> session \<Rightarrow> filesystem \<Rightarrow> ctl \<times> session \<times> filesystem \<times> ui list" where
  "run5 i s fs =
     (if api_key i = [] then (Stop, s, fs, [StWarning EnterApiKey])
      else
        (case left_column i s of
           (Continue, s1) \<Rightarrow> right_column5 i s1 fs
         | (c, s1) \<Rightarrow> (c, s1, fs, [])))"

section \<open>The recognizers (\<^verbatim>\<open>recog.py\<close>, \<^verbatim>\<open>recog3.py\<close>)\<close>

text \<open>
  A part of a request: the prompt, or \<^verbatim>\<open>types.Part.from_bytes(data=..., mime_type=...)\<close>.
\<close>

datatype part = TextPart pystr | BlobPart bytes pystr

text \<open>
  The environment of one run: the widgets, whether the button started the run, and the
  libraries.  \<open>load_url\<close> is \<^verbatim>\<open>requests.get(url).content\<close> (in \<^verbatim>\<open>recog3.py\<close> together with
  the display of the image, inside the same \<^verbatim>\<open>try\<close>), \<open>convert_from_bytes\<close> the
  rasterizer of \<^verbatim>\<open>pdf2image\<close>, \<open>image_to_bytes\<close> the JPEG encoding of a page,
  \<open>generate_content\<close> the service.  \<open>'img\<close> is the type of page images.
\<close>

record 'img env =
  r_api_key :: pystr
  r_uploaded :: "uploaded_file option"
  r_url :: pystr
  r_prompt :: pystr
  r_clicked :: bool
  load_url :: "pystr \<Rightarrow> failure + bytes"
  convert_from_bytes :: "bytes \<Rightarrow> failure + 'img list"
  image_to_bytes :: "'img \<Rightarrow> bytes"
  generate_content :: "part list \<Rightarrow> reply"

datatype shown =
    NeedApiKey
  | NeedImage
  | TextOnlyMode
  | ProcessingPdf
  | FetchFailed failure
  | ApiError failure
  | Answer "pystr option"

definition answer :: "'img env \<Rightarrow> part list \<Rightarrow> shown" where
  "answer e contents =
     (case generate_content e contents of
        Fails m \<Rightarrow> ApiError (ServiceError m)
      | Text t \<Rightarrow> Answer t)"

subsection \<open>\<^verbatim>\<open>recog.py\<close>\<close>







subsection \<open>\<^verbatim>\<open>recog3.py\<close>\<close>

text \<open>
  \<^verbatim>\<open>
  pages = pdf_to_images(pdf_bytes)
  for i, page in enumerate(pages):
      st.image(page, caption=f"PDF Page {i+1}", use_container_width=True)
      img_bytes = image_to_bytes(page)
      img_part = types.Part.from_bytes(data=img_bytes, mime_type="image/jpeg")
      content_parts.append(img_part)
  \<close>
\<close>

definition append_pages :: "'img env \<Rightarrow> part list \<Rightarrow> 'img list \<Rightarrow> part list" where
  "append_pages e content_parts pages =
     foldl (\<lambda>parts page. parts @ [BlobPart (image_to_bytes e page) (ascii ''image/jpeg'')])
       content_parts pages"

text \<open>
  The parts of the request, the flag \<^verbatim>\<open>file_attached\<close>, and what was shown; or the
  exception of the rasterizer, which nothing catches.
  \<^verbatim>\<open>
  content_parts = [prompt]
  file_attached = False
  if uploaded_file:
      file_attached = True
      if uploaded_file.type in ["image/jpeg", "image/png"]:
          image_bytes = uploaded_file.read()
          image_part = types.Part.from_bytes(data=image_bytes, mime_type=uploaded_file.type)
          content_parts.append(image_part)
      elif uploaded_file.type == "application/pdf":
          pdf_bytes = uploaded_file.read()
          pages = pdf_to_images(pdf_bytes)
          for ...
  elif url_input:
      file_attached = True
      try:
          image_bytes = requests.get(url_input).content
          st.image(...)
          img_part = types.Part.from_bytes(data=image_bytes, mime_type="image/jpeg")
          content_parts.append(img_part)
      except Exception as e:
          st.error(f"Could not load image from URL: {e}")
  \<close>
\<close>

definition content_parts_of :: "'img env \<Rightarrow> failure + (part list \<times> bool \<times> shown list)" where
  "content_parts_of e =
     (let content_parts = [TextPart (r_prompt e)]
      in case r_uploaded e of
           Some f \<Rightarrow>
             if up_type f = ascii ''image/jpeg'' \<or> up_type f = ascii ''image/png''
             then Inr (content_parts @ [BlobPart (up_read f) (up_type f)], True, [])
             else if up_type f = ascii ''application/pdf''
             then (case convert_from_bytes e (up_read f) of
                     Inl x \<Rightarrow> Inl x
                   | Inr pages \<Rightarrow> Inr (append_pages e content_parts pages, True, [ProcessingPdf]))
             else Inr (content_parts, True, [])
         | None \<Rightarrow>
             if r_url e \<noteq> [] then
               (case load_url e (r_url e) of
                  Inr b \<Rightarrow> Inr (content_parts @ [BlobPart b (ascii ''image/jpeg'')], True, [])
                | Inl x \<Rightarrow> Inr (content_parts, True, [FetchFailed x]))
             else Inr (content_parts, False, []))"

text \<open>
  The requests a run sends, what it shows, and the exception that ended it, if any.
  \<^verbatim>\<open>
  # Allow text-only queries (no upload or URL)
  if not file_attached:
      st.info("Text-only question mode (no image or document attached).")
  # Send content to Gemini
  with st.spinner("Analyzing with Gemini 2.5..."):
      try:
          response = client.models.generate_content(model=..., contents=content_parts)
          st.write(response.text)
      except Exception as e:
          st.error(f"Gemini API error: {e}")
  \<close>
\<close>

definition recog3_run :: "'img env \<Rightarrow> part list list \<times> shown list \<times> failure option" where
  "recog3_run e =
     (if r_api_key e = [] then ([], [NeedApiKey], None)
      else if \<not> r_clicked e then ([], [], None)
      else
        (case content_parts_of e of
           Inl x \<Rightarrow> ([], [ProcessingPdf], Some x)
         | Inr (content_parts, file_attached, sh) \<Rightarrow>
             ([content_parts],
              sh @ (if \<not> file_attached then [TextOnlyMode] else []) @ [answer e content_parts],
              None)))"

section \<open>Notions used to state what the repair achieves\<close>

text \<open>A raw text that wraps the content \<open>c\<close> in a fenced code block tagged \<^verbatim>\<open>json\<close>.\<close>

definition fenced :: "pystr \<Rightarrow> pystr" where
  "fenced c = ascii ''```json'' @ [NL] @ c @ [NL] @ ascii ''```''"

text \<open>The text has a backslash directly followed by a quote.\<close>

fun has_escaped_quote :: "pystr \<Rightarrow> bool" where
  "has_escaped_quote (a # b # cs) \<longleftrightarrow> (a = BSLASH \<and> b = QUOTE) \<or> has_escaped_quote (b # cs)"
| "has_escaped_quote _ \<longleftrightarrow> False"

text \<open>
  The text has a comma that is followed, after any run of whitespace, by a closing
  bracket or brace: a match of the pattern of \<open>sub_trailing_commas\<close>.
\<close>

fun has_trailing_comma :: "pystr \<Rightarrow> bool" where
  "has_trailing_comma [] \<longleftrightarrow> False"
| "has_trailing_comma (c # cs) \<longleftrightarrow>
     (c = COMMA \<and> (case dropWhile py_isspace cs of [] \<Rightarrow> False | d # ds \<Rightarrow> is_closer d))
     \<or> has_trailing_comma cs"

text \<open>
  The tokens without the commas that directly precede a closing brace or bracket, and
  the value a text denotes when these commas are ignored.  A text whose only malformation
  is such trailing commas is one for which \<open>loads_ignoring_trailing_commas\<close> gives a value.
\<close>

fun drop_trailing_commas :: "tok list \<Rightarrow> tok list" where
  "drop_trailing_commas (TComma # TRBrace # ts) = TRBrace # drop_trailing_commas ts"
| "drop_trailing_commas (TComma # TRBrack # ts) = TRBrack # drop_trailing_commas ts"
| "drop_trailing_commas (t # ts) = t # drop_trailing_commas ts"
| "drop_trailing_commas [] = []"

definition loads_ignoring_trailing_commas :: "pystr \<Rightarrow> json option" where
  "loads_ignoring_trailing_commas s =
     (case lex_json s of
        None \<Rightarrow> None
      | Some ts \<Rightarrow> parse_toks (MValue, []) (drop_trailing_commas ts))"

text \<open>
  The body of a string literal, decoded: \<open>scan_string\<close> without the closing quote.  A
  text \<open>lit\<close> is the body of a literal when \<open>decode_body lit\<close> is defined.
\<close>

function decode_body :: "pystr \<Rightarrow> pystr option" where
  "decode_body [] = Some []"
| "decode_body (c # cs) =
     (if c = QUOTE then None
      else (case read_char (c # cs) of
              None \<Rightarrow> None
            | Some (d, rest) \<Rightarrow> map_option ((#) d) (decode_body rest)))"
  by pat_completeness auto
termination
  by (relation "measure length") (auto dest: read_char_length)

text \<open>
  The characters of numbers and of the constants: ASCII digits, letters, sign, point.
\<close>

definition tok_char :: "nat \<Rightarrow> bool" where
  "tok_char c \<longleftrightarrow>
     is_digit c \<or> c = 45 \<or> c = 43 \<or> c = 46 \<or> (65 \<le> c \<and> c \<le> 90) \<or> (97 \<le> c \<and> c \<le> 122)"

text \<open>
  The shape of a token forgets the content of a string, and the shape of the parser's
  state forgets the values: whether a list of tokens is accepted depends on the shapes
  only.
\<close>

fun tshape :: "tok \<Rightarrow> tok" where
  "tshape (TStr s) = TStr []"
| "tshape (TAtom v) = TAtom JNull"
| "tshape t = t"

datatype fshape = SArr | SObj | SKey

datatype mshape = SValue | SArrFirst | SObjFirst | SKeyNext | SColon | SSep | SDone

fun frame_shape :: "frame \<Rightarrow> fshape" where
  "frame_shape (InArr vs) = SArr"
| "frame_shape (InObj ps) = SObj"
| "frame_shape (InKey ps k) = SKey"

fun mode_shape :: "mode \<Rightarrow> mshape" where
  "mode_shape MValue = SValue"
| "mode_shape MArrFirst = SArrFirst"
| "mode_shape MObjFirst = SObjFirst"
| "mode_shape MKey = SKeyNext"
| "mode_shape (MColon k) = SColon"
| "mode_shape MSep = SSep"
| "mode_shape (MDone v) = SDone"

definition state_shape :: "mode \<times> frame list \<Rightarrow> mshape \<times> fshape list" where
  "state_shape s = (mode_shape (fst s), map frame_shape (snd s))"

fun sfinish :: "fshape list \<Rightarrow> (mshape \<times> fshape list) option" where
  "sfinish [] = Some (SDone, [])"
| "sfinish (SArr # st) = Some (SSep, SArr # st)"
| "sfinish (SKey # st) = Some (SSep, SObj # st)"
| "sfinish (SObj # st) = None"

definition svalue_tok :: "bool \<Rightarrow> fshape list \<Rightarrow> tok \<Rightarrow> (mshape \<times> fshape list) option" where
  "svalue_tok first st t =
     (case t of
        TAtom v \<Rightarrow> sfinish st
      | TStr s \<Rightarrow> sfinish st
      | TLBrack \<Rightarrow> Some (SArrFirst, SArr # st)
      | TLBrace \<Rightarrow> Some (SObjFirst, SObj # st)
      | TRBrack \<Rightarrow> (if first then (case st of SArr # r \<Rightarrow> sfinish r | _ \<Rightarrow> None) else None)
      | _ \<Rightarrow> None)"

definition sstep :: "mshape \<times> fshape list \<Rightarrow> tok \<Rightarrow> (mshape \<times> fshape list) option" where
  "sstep s t =
     (case s of (m, st) \<Rightarrow>
        (case m of
           SValue \<Rightarrow> svalue_tok False st t
         | SArrFirst \<Rightarrow> svalue_tok True st t
         | SObjFirst \<Rightarrow>
             (case t of
                TStr k \<Rightarrow> Some (SColon, st)
              | TRBrace \<Rightarrow> (case st of SObj # r \<Rightarrow> sfinish r | _ \<Rightarrow> None)
              | _ \<Rightarrow> None)
         | SKeyNext \<Rightarrow> (case t of TStr k \<Rightarrow> Some (SColon, st) | _ \<Rightarrow> None)
         | SColon \<Rightarrow>
             (case t of
                TColon \<Rightarrow> (case st of SObj # r \<Rightarrow> Some (SValue, SKey # r) | _ \<Rightarrow> None)
              | _ \<Rightarrow> None)
         | SSep \<Rightarrow>
             (case st of
                SArr # r \<Rightarrow>
                  (case t of
                     TComma \<Rightarrow> Some (SValue, st)
                   | TRBrack \<Rightarrow> sfinish r
                   | _ \<Rightarrow> None)
              | SObj # r \<Rightarrow>
                  (case t of
                     TComma \<Rightarrow> Some (SKeyNext, st)
                   | TRBrace \<Rightarrow> sfinish r
                   | _ \<Rightarrow> None)
              | _ \<Rightarrow> None)
         | SDone \<Rightarrow> None))"

fun saccepts :: "mshape \<times> fshape list \<Rightarrow> tok list \<Rightarrow> bool" where
  "saccepts s [] \<longleftrightarrow> s = (SDone, [])"
| "saccepts s (t # ts) \<longleftrightarrow> (case sstep s t of None \<Rightarrow> False | Some s' \<Rightarrow> saccepts s' ts)"

section \<open>Auxiliary notions for the lexer\<close>

text \<open>
  A change of a text keeps the tokens when it leaves the characters of numbers and
  constants in place and gives a text that starts with such a character only if the
  original does.
\<close>

definition keeps_tokens :: "(pystr \<Rightarrow> pystr) \<Rightarrow> bool" where
  "keeps_tokens m \<longleftrightarrow>
     (\<forall>c cs. tok_char c \<longrightarrow> m (c # cs) = c # m cs)
     \<and> (\<forall>x. (x = [] \<or> \<not> tok_char (hd x)) \<longrightarrow> (m x = [] \<or> \<not> tok_char (hd (m x))))"

text \<open>
  The optional sign of an exponent, split from the text that follows.
\<close>

definition exp_sign :: "pystr \<Rightarrow> pystr \<times> pystr" where
  "exp_sign es = (case es of [] \<Rightarrow> ([], es) | s # t \<Rightarrow> if s = 43 \<or> s = 45 then ([s], t) else ([], es))"

text \<open>
  The integer part of a number: a single zero, or a run of digits.
\<close>

definition scan_int :: "pystr \<Rightarrow> (pystr \<times> pystr) option" where
  "scan_int s1 =
     (case s1 of
        [] \<Rightarrow> None
      | d # ds \<Rightarrow>
          if 48 \<le> d \<and> d \<le> 57
          then Some (if d = 48 then [d] else d # takeWhile is_digit ds,
                     if d = 48 then ds else dropWhile is_digit ds)
          else None)"

text \<open>
  The value of a number literal given by its sign, integer part, fraction and exponent.
\<close>

definition num_value :: "bool \<Rightarrow> pystr \<Rightarrow> pystr \<Rightarrow> pystr \<Rightarrow> json" where
  "num_value neg ip frac ex =
     (if frac = [] \<and> ex = []
      then JInt (if neg then - digits_val ip else digits_val ip)
      else JFloat ((if neg then [45] else []) @ ip @ frac @ ex))"

text \<open>
  The constants of \<^verbatim>\<open>json.loads\<close>, in the order in which \<open>next_token\<close> tries them.
\<close>

definition literals :: "(pystr \<times> json) list" where
  "literals =
     [(ascii ''null'', JNull), (ascii ''true'', JBool True), (ascii ''false'', JBool False),
      (ascii ''NaN'', JFloat (ascii ''NaN'')), (ascii ''Infinity'', JFloat (ascii ''Infinity'')),
      (ascii ''-Infinity'', JFloat (ascii ''-Infinity''))]"

text \<open>
  The token of a constant or a number.
\<close>

definition atom_token :: "pystr \<Rightarrow> (tok \<times> pystr) option" where
  "atom_token s =
     (case find (\<lambda>l. starts_with (fst l) s) literals of
        Some l \<Rightarrow> Some (TAtom (snd l), drop (length (fst l)) s)
      | None \<Rightarrow>
          (case scan_number s of
             None \<Rightarrow> None
           | Some (v, rest) \<Rightarrow> Some (TAtom v, rest)))"

section \<open>Evaluation\<close>

text \<open>The definitions that the simplifier unfolds to evaluate the model on a given text.\<close>

lemmas eval_text = ascii_def py_strip_def py_lstrip_def py_rstrip_def py_isspace_def is_closer_def
  lstrip_nl_cr_sp_def starts_with_def

lemmas eval_json = is_json_ws_def is_digit_def hexval_def low_escape_def read_char_def unescape_def push_def digits_val_def
  scan_exp_def scan_frac_def scan_number_def next_token_def tcons_def value_tok_def pstep_def py_dict_def
  dict_set_def json_loads_def

section \<open>Properties of the normalizer\<close>

lemma py_strip_all_space:
  assumes "\<forall>c\<in>set s. py_isspace c"
  shows "py_strip s = []"
proof -
  from assms have "dropWhile py_isspace s = []" by (induction s) auto
  then have "py_lstrip s = []" by (simp only: py_lstrip_def)
  then show ?thesis by (simp add: py_strip_def py_rstrip_def)
qed

text \<open>
  Claim C5.  A raw gateway text that is empty, or consists of whitespace only, makes
  \<^verbatim>\<open>parse_gemini_json\<close> raise \<^verbatim>\<open>ValueError("Empty Gemini response")\<close>; it returns no
  parsed object.
\<close>

theorem parse_gemini_json_empty:
  assumes "\<forall>c\<in>set raw. py_isspace c"
  shows "parse_gemini_json raw = Inl (ValueError (ascii ''Empty Gemini response''))
         \<and> (\<forall>v. parse_gemini_json raw \<noteq> Inr v)"
  using py_strip_all_space[OF assms] by (simp add: parse_gemini_json_def)

theorem parse_gemini_json_empty_witness:
  "parse_gemini_json [32, 10, 9] = Inl (ValueError (ascii ''Empty Gemini response''))
   \<and> (\<forall>v. parse_gemini_json [32, 10, 9] \<noteq> Inr v)"
proof -
  have "\<forall>c\<in>set [32, 10, 9]. py_isspace c"
    by (simp add: py_isspace_def)
  then show ?thesis
    by (rule parse_gemini_json_empty)
qed

section \<open>Properties of the packager\<close>

lemma zip_members: 
  "foldl (\<lambda>zf (name, content).
                        (case content of
                           Str t \<Rightarrow> writestr zf name (Str t)
                         | Bytes b \<Rightarrow> writestr zf name (Bytes b))) acc d = acc @ d"
  by (induction d arbitrary: acc) (auto simp: writestr_def split: content.splits)

lemma zip_project_eq: "zip_project d fs = (zip_path, fs(zip_path \<mapsto> d))"
  by (simp add: zip_project_def zip_members Let_def)

lemma dict_set_other: "k' \<noteq> k \<Longrightarrow> filter (\<lambda>e. fst e = k') (dict_set k v d) = filter (\<lambda>e. fst e = k') d"
  by (induction d) (auto simp: dict_set_def)

lemma dict_set_distinct: "distinct (map fst d) \<Longrightarrow> distinct (map fst (dict_set k v d))"
  by (simp add: dict_set_def AList.distinct_update)

lemma dict_set_same: "distinct (map fst d) \<Longrightarrow> filter (\<lambda>e. fst e = k) (dict_set k v d) = [(k, v)]"
proof (induction d)
  case Nil
  then show ?case by (simp add: dict_set_def)
next
  case (Cons p d)
  show ?case
  proof (cases "fst p = k")
    case True
    with Cons.prems have "k \<notin> fst ` set d" by auto
    then have "filter (\<lambda>e. fst e = k) d = []" by (auto simp: filter_empty_conv)
    with True show ?thesis by (simp add: dict_set_def)
  next
    case False
    with Cons show ?thesis by (simp add: dict_set_def)
  qed
qed

lemma dict_sets_distinct: "distinct (map fst d) \<Longrightarrow> distinct (map fst (dict_sets d ins))"
  by (induction ins arbitrary: d) (auto simp: dict_sets_def dict_set_distinct)

lemma dict_sets_other:
  "k \<notin> fst ` set ins \<Longrightarrow> filter (\<lambda>e. fst e = k) (dict_sets d ins) = filter (\<lambda>e. fst e = k) d"
  by (induction ins arbitrary: d) (auto simp: dict_sets_def dict_set_other)

lemma dict_sets_append: "dict_sets d (xs @ ys) = dict_sets (dict_sets d xs) ys"
  by (simp add: dict_sets_def)

lemma dict_sets_last:
  assumes "distinct (map fst d)" "n \<notin> fst ` set ys"
  shows "filter (\<lambda>e. fst e = n) (dict_sets d (xs @ (n, c) # ys)) = [(n, c)]"
proof -
  have "dict_sets d (xs @ (n, c) # ys) = dict_sets (dict_set n c (dict_sets d xs)) ys"
    by (simp add: dict_sets_def)
  moreover have "distinct (map fst (dict_sets d xs))"
    using assms(1) by (rule dict_sets_distinct)
  ultimately show ?thesis
    using assms(2) by (simp add: dict_sets_other dict_set_same)
qed


lemma py_dict_dict_sets: "py_dict ins = dict_sets [] ins"
  by (simp add: py_dict_def dict_sets_def)

text \<open>
  Claim C6.  For every mapping \<open>d\<close> from file names to contents, \<^verbatim>\<open>zip_project\<close> returns the
  fixed path \<^verbatim>\<open>generated_project.zip\<close> and leaves there, whatever the path held before,
  one archive whose members are the items of \<open>d\<close>, unchanged and in order; no other path
  changes.  When the file set is built by assignments \<^verbatim>\<open>files[name] = content\<close> and the
  last assignment to the name \<open>n\<close> stores \<open>c\<close>, the archive has exactly one member named
  \<open>n\<close>, with content \<open>c\<close>.
\<close>

theorem zip_project_archive:
  assumes "distinct (map fst d0)" and "n \<notin> fst ` set ys"
  shows "zip_project d fs =
           (ascii ''generated_project.zip'', fs(ascii ''generated_project.zip'' \<mapsto> d))
         \<and> (\<exists>a. snd (zip_project (dict_sets d0 (xs @ (n, c) # ys)) fs)
                    (ascii ''generated_project.zip'') = Some a
                \<and> filter (\<lambda>e. fst e = n) a = [(n, c)])"
  using dict_sets_last[OF assms, of xs c]
  by (simp add: zip_project_eq zip_path_def)

theorem zip_project_archive_witness:
  "zip_project [(ascii ''a.py'', Str (ascii ''x'')), (ascii ''b.txt'', Bytes ''v'')] Map.empty =
     (ascii ''generated_project.zip'',
      [ascii ''generated_project.zip'' \<mapsto>
         [(ascii ''a.py'', Str (ascii ''x'')), (ascii ''b.txt'', Bytes ''v'')]])
   \<and> (\<exists>a. snd (zip_project
                 (dict_sets []
                    ([(ascii ''a.py'', Str (ascii ''x''))]
                     @ (ascii ''a.py'', Bytes ''u'') # [(ascii ''b.txt'', Bytes ''v'')]))
                 Map.empty)
              (ascii ''generated_project.zip'') = Some a
          \<and> filter (\<lambda>e. fst e = ascii ''a.py'') a = [(ascii ''a.py'', Bytes ''u'')])"
proof -
  have "distinct (map fst ([] :: (pystr \<times> content) list))" by simp
  moreover have "ascii ''a.py'' \<notin> fst ` set [(ascii ''b.txt'', Bytes ''v'')]"
    by (simp add: ascii_def)
  ultimately show ?thesis
    by (rule zip_project_archive)
qed

section \<open>Properties of the wizard\<close>

lemma store_uploads_other [simp]:
  "phase (store_uploads u s) = phase s"
  "planning_response (store_uploads u s) = planning_response s"
  "design_response (store_uploads u s) = design_response s"
  by (simp_all add: store_uploads_def)

text \<open>
  Claim C10.  A run in which the uploader holds files (and that no button started)
  leaves in the session exactly the descriptors of these files, whatever list an earlier
  upload had stored.
\<close>

theorem upload_replaces_stored_files:
  assumes "in_uploaded i \<noteq> []" and "clicked i = None"
  shows "uploaded_files (snd (left_column i s)) =
           map (\<lambda>f. \<lparr>f_name = up_name f, f_type = up_type f, f_bytes = up_read f\<rparr>) (in_uploaded i)"
  using assms by (simp add: left_column_def store_uploads_def Let_def)

theorem upload_replaces_stored_files_witness:
  "uploaded_files
     (snd (left_column
             \<lparr>api_key = ascii ''k'', in_user_text = [], in_line_range = [],
               in_uploaded = [\<lparr>up_name = ascii ''b.txt'', up_type = ascii ''text/plain'', up_read = ''new''\<rparr>],
               clicked = None, gateway = Fails [], fmt = (\<lambda>v. []), select = (\<lambda>k v. v),
               note_text = (\<lambda>k. [])\<rparr>
             (defaults\<lparr>uploaded_files :=
                [\<lparr>f_name = ascii ''a.txt'', f_type = ascii ''text/plain'', f_bytes = ''old''\<rparr>]\<rparr>))) =
   [\<lparr>f_name = ascii ''b.txt'', f_type = ascii ''text/plain'', f_bytes = ''new''\<rparr>]"
proof -
  let ?i = "\<lparr>api_key = ascii ''k'', in_user_text = [], in_line_range = [],
               in_uploaded = [\<lparr>up_name = ascii ''b.txt'', up_type = ascii ''text/plain'', up_read = ''new''\<rparr>],
               clicked = None, gateway = Fails [], fmt = (\<lambda>v. []), select = (\<lambda>k v. v),
               note_text = (\<lambda>k. [])\<rparr>"
  have "in_uploaded ?i \<noteq> []" and "clicked ?i = None" by simp_all
  from upload_replaces_stored_files[OF this] show ?thesis by simp
qed

lemma dict_set_keys_take: "take (length d) (map fst (dict_set k v d)) = map fst d"
  by (induction d) (auto simp: dict_set_def)

lemma dict_set_length: "length d \<le> length (dict_set k v d)"
  by (induction d) (auto simp: dict_set_def)

lemma dict_sets_keys_take: "take (length d) (map fst (dict_sets d ins)) = map fst d"
proof (induction ins arbitrary: d)
  case Nil
  then show ?case by (simp add: dict_sets_def)
next
  case (Cons p ins)
  obtain k v where p: "p = (k, v)" by (cases p)
  have "take (length d) (map fst (dict_sets (dict_set k v d) ins)) =
        take (length d) (take (length (dict_set k v d)) (map fst (dict_sets (dict_set k v d) ins)))"
    using dict_set_length[of d k v] by (simp add: min_def)
  also have "\<dots> = take (length d) (map fst (dict_set k v d))"
    by (simp only: Cons.IH)
  also have "\<dots> = map fst d" by (rule dict_set_keys_take)
  finally show ?case by (simp add: p dict_sets_def)
qed

lemma assemble_files_names:
  "take 2 (map fst (assemble_files readme code ups)) = [ascii ''generated_app.py'', ascii ''README.md'']"
  using dict_sets_keys_take[of "[(ascii ''generated_app.py'', Str code), (ascii ''README.md'', Str readme)]"]
  by (simp add: assemble_files_def numeral_2_eq_2)

lemma assemble_files_distinct: "distinct (map fst (assemble_files readme code ups))"
  unfolding assemble_files_def by (rule dict_sets_distinct) (simp add: ascii_def)

lemma assemble_files_last:
  assumes "ups = xs @ f # ys" and "f_name f \<notin> f_name ` set ys"
  shows "filter (\<lambda>e. fst e = f_name f) (assemble_files readme code ups) = [(f_name f, Bytes (f_bytes f))]"
proof -
  have d: "distinct (map fst [(ascii ''generated_app.py'', Str code), (ascii ''README.md'', Str readme)])"
    by (simp add: ascii_def)
  have n: "f_name f \<notin> fst ` set (map (\<lambda>f. (f_name f, Bytes (f_bytes f))) ys)"
    using assms(2) by (auto simp: image_iff)
  show ?thesis
    using dict_sets_last[OF d n, of "map (\<lambda>f. (f_name f, Bytes (f_bytes f))) xs" "Bytes (f_bytes f)"]
    by (simp add: assemble_files_def assms(1))
qed

lemma take2_mem: "take 2 xs = [a, b] \<Longrightarrow> a \<in> set xs \<and> b \<in> set xs"
  by (metis in_set_takeD list.set_intros(1) list.set_intros(2))

text \<open>
  Claim C9.  When the code-generation step of \<^verbatim>\<open>recog5.py\<close> or of \<^verbatim>\<open>recog4.py\<close> succeeds
  (it stores its results and reruns), the file set of the session has the names
  \<^verbatim>\<open>generated_app.py\<close> and \<^verbatim>\<open>README.md\<close> as its first two, no name twice, and for every
  uploaded file that is the last one of its name exactly one entry of that name, which
  holds the bytes of that file: also when the name is one of the two.
\<close>

theorem generated_file_set:
  assumes "generate_fetch5 i s = (Rerun, s', out) \<or> generate_fetch4 i s = (Rerun, s', out)"
  shows "ascii ''generated_app.py'' \<in> fst ` set (project_files s')
         \<and> ascii ''README.md'' \<in> fst ` set (project_files s')
         \<and> take 2 (map fst (project_files s')) = [ascii ''generated_app.py'', ascii ''README.md'']
         \<and> distinct (map fst (project_files s'))
         \<and> (\<forall>xs f ys. uploaded_files s = xs @ f # ys \<and> f_name f \<notin> f_name ` set ys
               \<longrightarrow> filter (\<lambda>e. fst e = f_name f) (project_files s') = [(f_name f, Bytes (f_bytes f))])"
proof -
  from assms obtain readme code where
    pf: "project_files s' = assemble_files readme code (uploaded_files s)"
    by (auto simp: generate_fetch5_def generate_fetch4_def Let_def split: sum.splits if_splits)
  have t: "take 2 (map fst (project_files s')) = [ascii ''generated_app.py'', ascii ''README.md'']"
    unfolding pf by (rule assemble_files_names)
  from take2_mem[OF t] have "ascii ''generated_app.py'' \<in> fst ` set (project_files s')"
    and "ascii ''README.md'' \<in> fst ` set (project_files s')" by simp_all
  moreover have "distinct (map fst (project_files s'))"
    unfolding pf by (rule assemble_files_distinct)
  moreover have "\<forall>xs f ys. uploaded_files s = xs @ f # ys \<and> f_name f \<notin> f_name ` set ys
               \<longrightarrow> filter (\<lambda>e. fst e = f_name f) (project_files s') = [(f_name f, Bytes (f_bytes f))]"
    unfolding pf by (auto intro: assemble_files_last)
  ultimately show ?thesis using t by simp
qed


theorem generated_file_set_witness:
  "filter (\<lambda>e. fst e = ascii ''README.md'')
     (project_files (fst (snd (generate_fetch5
        \<lparr>api_key = ascii ''k'', in_user_text = [], in_line_range = [], in_uploaded = [],
          clicked = None, gateway = Text (Some (ascii ''x = 1'')), fmt = (\<lambda>v. []),
          select = (\<lambda>k v. v), note_text = (\<lambda>k. [])\<rparr>
        (defaults\<lparr>phase := Generate, uploaded_files :=
           [\<lparr>f_name = ascii ''README.md'', f_type = ascii ''text/markdown'', f_bytes = ''mine''\<rparr>]\<rparr>)))))
   = [(ascii ''README.md'', Bytes ''mine'')]"
proof -
  let ?i = "\<lparr>api_key = ascii ''k'', in_user_text = [], in_line_range = [], in_uploaded = [],
          clicked = None, gateway = Text (Some (ascii ''x = 1'')), fmt = (\<lambda>v. []),
          select = (\<lambda>k v. v), note_text = (\<lambda>k. [])\<rparr>"
  let ?f = "\<lparr>f_name = ascii ''README.md'', f_type = ascii ''text/markdown'', f_bytes = ''mine''\<rparr>"
  let ?s = "defaults\<lparr>phase := Generate, uploaded_files := [?f]\<rparr>"
  let ?r = "generate_fetch5 ?i ?s"
  have "?r = (Rerun, fst (snd ?r), snd (snd ?r))"
    by (simp add: generate_fetch5_def response_text_def Let_def)
  then have "generate_fetch5 ?i ?s = (Rerun, fst (snd ?r), snd (snd ?r))
             \<or> generate_fetch4 ?i ?s = (Rerun, fst (snd ?r), snd (snd ?r))" ..
  from generated_file_set[OF this]
  have "\<forall>xs f ys. uploaded_files ?s = xs @ f # ys \<and> f_name f \<notin> f_name ` set ys
          \<longrightarrow> filter (\<lambda>e. fst e = f_name f) (project_files (fst (snd ?r))) = [(f_name f, Bytes (f_bytes f))]"
    by blast
  from this[rule_format, of "[]" ?f "[]"] show ?thesis by simp
qed

text \<open>
  Claim C3.  The service answers with a fenced text that is not JSON, also after the
  repair.  \<^verbatim>\<open>recog5.py\<close> shows one error message made from the exception (whose document
  is the repaired text, not the raw one) and stops: no raw text, no retry button.
  \<^verbatim>\<open>recog4.py\<close> shows the raw text and the retry button.
\<close>

theorem planning_fetch5_drops_raw_text:
  "planning_fetch5
     (i\<lparr>gateway := Text (Some (ascii ''```json'' @ [NL] @ ascii ''{bad}'' @ [NL] @ ascii ''```'')),
        clicked := None\<rparr>) s
   = (Stop, s, [StError (InvalidJsonOrError (Raised (JSONDecodeError (ascii ''{bad}''))))])
   \<and> planning_fetch4
     (i\<lparr>gateway := Text (Some (ascii ''```json'' @ [NL] @ ascii ''{bad}'' @ [NL] @ ascii ''```'')),
        clicked := None\<rparr>) s
   = (Stop, s, [StError InvalidJsonAfterRepair,
                StCode (ascii ''```json'' @ [NL] @ ascii ''{bad}'' @ [NL] @ ascii ''```''),
                StButton RetryPlanning])"
proof -
  define raw where "raw = ascii ''```json'' @ [NL] @ ascii ''{bad}'' @ [NL] @ ascii ''```''"
  have p: "parse_gemini_json raw = Inl (JSONDecodeError (ascii ''{bad}''))"
    unfolding raw_def
    by (simp add: parse_gemini_json_def clean_json_text_def eval_text eval_json Let_def)
  have r: "py_strip raw = raw"
    unfolding raw_def by (simp add: eval_text)
  have n: "raw \<noteq> []"
    unfolding raw_def by simp
  have "planning_fetch5 (i\<lparr>gateway := Text (Some raw), clicked := None\<rparr>) s
        = (Stop, s, [StError (InvalidJsonOrError (Raised (JSONDecodeError (ascii ''{bad}''))))])
        \<and> planning_fetch4 (i\<lparr>gateway := Text (Some raw), clicked := None\<rparr>) s
        = (Stop, s, [StError InvalidJsonAfterRepair, StCode raw, StButton RetryPlanning])"
    by (simp add: planning_fetch5_def planning_fetch4_def response_text_def r p n)
  then show ?thesis
    unfolding raw_def .
qed

lemma render_planning_response:
  assumes "render_response i tk pre extra data answers = (None, answers')" and "truthy data"
  shows "\<exists>ps. data = JObj ps \<and> ps \<noteq> []"
  using assms by (cases data) (auto simp: render_response_def)

lemma planning_fetch5_phase: "planning_fetch5 i s = (c, s', out) \<Longrightarrow> phase s' = phase s"
  by (auto simp: planning_fetch5_def split: sum.splits)

lemma design_fetch5_phase: "design_fetch5 i s = (c, s', out) \<Longrightarrow> phase s' = phase s"
  by (auto simp: design_fetch5_def split: sum.splits)

lemma generate_fetch5_phase: "generate_fetch5 i s = (c, s', out) \<Longrightarrow> phase s' = phase s"
  by (auto simp: generate_fetch5_def Let_def split: sum.splits)

lemma planning_view_phase:
  assumes "planning_view i s = (c, s', out)" and "truthy (planning_response s)"
  shows "phase s' = phase s
         \<or> (phase s' = Designing \<and> clicked i = Some ConfirmPlanning
             \<and> (\<exists>ps. planning_response s = JObj ps \<and> ps \<noteq> []))"
proof (cases "render_response i (ascii ''plan_text'') (ascii ''plan_q_'') (ascii ''plan_additional'')
             (planning_response s) (planning_answers s)")
  case (Pair e answers)
  show ?thesis
  proof (cases e)
    case None
    from render_planning_response[OF Pair[unfolded None] assms(2)]
    obtain ps where "planning_response s = JObj ps \<and> ps \<noteq> []" ..
    with assms(1) Pair None show ?thesis
      by (auto simp: planning_view_def Let_def split: if_splits)
  next
    case (Some x)
    with assms(1) Pair show ?thesis
      by (auto simp: planning_view_def)
  qed
qed

lemma design_view_phase:
  assumes "design_view i s = (c, s', out)" and "truthy (design_response s)"
  shows "phase s' = phase s
         \<or> (phase s' = Finalize \<and> clicked i = Some ConfirmDesign
             \<and> (\<exists>ps. design_response s = JObj ps \<and> ps \<noteq> []))"
proof (cases "render_response i (ascii ''design_text'') (ascii ''design_q_'') (ascii ''design_additional'')
             (design_response s) (design_answers s)")
  case (Pair e answers)
  show ?thesis
  proof (cases e)
    case None
    from render_planning_response[OF Pair[unfolded None] assms(2)]
    obtain ps where "design_response s = JObj ps \<and> ps \<noteq> []" ..
    with assms(1) Pair None show ?thesis
      by (auto simp: design_view_def Let_def split: if_splits)
  next
    case (Some x)
    with assms(1) Pair show ?thesis
      by (auto simp: design_view_def)
  qed
qed

lemma finalize_view_phase:
  assumes "finalize_view i s = (c, s', out)"
  shows "phase s' = phase s \<or> (phase s' = Generate \<and> clicked i = Some GenerateProject)"
  using assms by (auto simp: finalize_view_def split: sum.splits if_splits)

lemma generated_view_phase:
  assumes "generated_view i s fs = (c, s', fs', out)"
  shows "s' = s \<or> (s' = defaults \<and> clicked i = Some StartNewProject)"
  using assms by (auto simp: generated_view_def Let_def split: prod.splits if_splits)

lemma right_column5_phase:
  assumes "right_column5 i s fs = (c, s', fs', out)"
  shows "phase s' = phase s
         \<or> (phase s = Planning \<and> phase s' = Designing \<and> clicked i = Some ConfirmPlanning
             \<and> (\<exists>ps. planning_response s = JObj ps \<and> ps \<noteq> []))
         \<or> (phase s = Designing \<and> phase s' = Finalize \<and> clicked i = Some ConfirmDesign
             \<and> (\<exists>ps. design_response s = JObj ps \<and> ps \<noteq> []))
         \<or> (phase s = Finalize \<and> phase s' = Generate \<and> clicked i = Some GenerateProject)
         \<or> (phase s = Generate \<and> s' = defaults \<and> clicked i = Some StartNewProject)"
proof (cases "phase s")
  case Collect
  with assms show ?thesis by (simp add: right_column5_def)
next
  case Planning
  show ?thesis
  proof (cases "truthy (planning_response s)")
    case True
    with assms Planning have "planning_view i s = (c, s', out)"
      by (auto simp: right_column5_def with_fs_def split: prod.splits)
    from planning_view_phase[OF this True] Planning show ?thesis by auto
  next
    case False
    with assms Planning have "planning_fetch5 i s = (c, s', out)"
      by (auto simp: right_column5_def with_fs_def split: prod.splits)
    from planning_fetch5_phase[OF this] show ?thesis by simp
  qed
next
  case Designing
  show ?thesis
  proof (cases "truthy (design_response s)")
    case True
    with assms Designing have "design_view i s = (c, s', out)"
      by (auto simp: right_column5_def with_fs_def split: prod.splits)
    from design_view_phase[OF this True] Designing show ?thesis by auto
  next
    case False
    with assms Designing have "design_fetch5 i s = (c, s', out)"
      by (auto simp: right_column5_def with_fs_def split: prod.splits)
    from design_fetch5_phase[OF this] show ?thesis by simp
  qed
next
  case Finalize
  with assms have "finalize_view i s = (c, s', out)"
    by (auto simp: right_column5_def with_fs_def split: prod.splits)
  from finalize_view_phase[OF this] Finalize show ?thesis by auto
next
  case Generate
  show ?thesis
  proof (cases "generated_code s = None \<or> generated_code s = Some []")
    case True
    with assms Generate have "generate_fetch5 i s = (c, s', out)"
      by (auto simp: right_column5_def with_fs_def split: prod.splits)
    from generate_fetch5_phase[OF this] show ?thesis by simp
  next
    case False
    with assms Generate have "generated_view i s fs = (c, s', fs', out)"
      by (auto simp: right_column5_def)
    from generated_view_phase[OF this] Generate show ?thesis by auto
  qed
qed

lemma left_column_phase:
  assumes "left_column i s = (c, s1)"
  shows "(c = Continue \<and> phase s1 = phase s \<and> planning_response s1 = planning_response s
            \<and> design_response s1 = design_response s)
         \<or> (c = Rerun \<and> phase s = Collect \<and> phase s1 = Planning \<and> clicked i = Some StartPlanning)
         \<or> (c = Rerun \<and> phase s \<noteq> Collect \<and> s1 = defaults \<and> clicked i = Some ResetProject)"
  using assms by (auto simp: left_column_def Let_def split: if_splits)

text \<open>
  Claim C4.  Every run of \<^verbatim>\<open>recog5.py\<close> leaves the phase as it is, or moves it one step
  along collect, planning, designing, finalize, generate, or resets the whole session to
  its defaults (phase collect).  The step from planning to designing is taken only when
  the session holds a planning response that is a non-empty object and the run was started
  by the confirm button.  From generate a run reaches nothing but generate itself or the
  full reset.
\<close>

theorem phase_transitions_monotonic:
  assumes "run5 i s fs = (c, s', fs', out)"
  shows "(phase s' = phase s
          \<or> (phase s = Collect \<and> phase s' = Planning \<and> clicked i = Some StartPlanning)
          \<or> (phase s = Planning \<and> phase s' = Designing \<and> clicked i = Some ConfirmPlanning
              \<and> (\<exists>ps. planning_response s = JObj ps \<and> ps \<noteq> []))
          \<or> (phase s = Designing \<and> phase s' = Finalize \<and> clicked i = Some ConfirmDesign
              \<and> (\<exists>ps. design_response s = JObj ps \<and> ps \<noteq> []))
          \<or> (phase s = Finalize \<and> phase s' = Generate \<and> clicked i = Some GenerateProject)
          \<or> (phase s \<noteq> Collect \<and> s' = defaults
              \<and> (clicked i = Some ResetProject \<or> clicked i = Some StartNewProject)))
         \<and> (phase s = Generate \<longrightarrow> phase s' = Generate \<or> s' = defaults)"
proof (cases "api_key i = []")
  case True
  with assms show ?thesis by (simp add: run5_def)
next
  case False
  obtain c1 s1 where l: "left_column i s = (c1, s1)" by (cases "left_column i s")
  from left_column_phase[OF l] show ?thesis
  proof (elim disjE conjE)
    assume c1: "c1 = Continue" and p: "phase s1 = phase s"
      and pr: "planning_response s1 = planning_response s"
      and dr: "design_response s1 = design_response s"
    with assms False l have "right_column5 i s1 fs = (c, s', fs', out)"
      by (simp add: run5_def)
    from right_column5_phase[OF this] p pr dr show ?thesis by auto
  next
    assume "c1 = Rerun" "phase s = Collect" "phase s1 = Planning" "clicked i = Some StartPlanning"
    with assms False l show ?thesis by (auto simp: run5_def)
  next
    assume "c1 = Rerun" "phase s \<noteq> Collect" "s1 = defaults" "clicked i = Some ResetProject"
    with assms False l show ?thesis by (auto simp: run5_def)
  qed
qed

theorem phase_transitions_monotonic_witness:
  "phase (fst (snd (run5
      \<lparr>api_key = ascii ''k'', in_user_text = [], in_line_range = [], in_uploaded = [],
        clicked = Some ConfirmPlanning, gateway = Fails [], fmt = (\<lambda>v. []),
        select = (\<lambda>k v. v), note_text = (\<lambda>k. [])\<rparr>
      (defaults\<lparr>phase := Planning,
                 planning_response := JObj [(ascii ''plan_text'', JStr (ascii ''p''))]\<rparr>)
      Map.empty))) = Designing
   \<and> (\<exists>ps. planning_response
              (defaults\<lparr>phase := Planning,
                 planning_response := JObj [(ascii ''plan_text'', JStr (ascii ''p''))]\<rparr>) = JObj ps
          \<and> ps \<noteq> [])"
proof -
  let ?i = "\<lparr>api_key = ascii ''k'', in_user_text = [], in_line_range = [], in_uploaded = [],
        clicked = Some ConfirmPlanning, gateway = Fails [], fmt = (\<lambda>v. []),
        select = (\<lambda>k v. v), note_text = (\<lambda>k. [])\<rparr>"
  let ?s = "defaults\<lparr>phase := Planning,
                 planning_response := JObj [(ascii ''plan_text'', JStr (ascii ''p''))]\<rparr>"
  let ?r = "run5 ?i ?s Map.empty"
  have d: "phase (fst (snd ?r)) = Designing"
    by (simp add: run5_def left_column_def store_uploads_def right_column5_def with_fs_def
        planning_view_def render_response_def defaults_def dict_set_def Let_def)
      (simp add: ascii_def)
  have "?r = (fst ?r, fst (snd ?r), fst (snd (snd ?r)), snd (snd (snd ?r)))" by simp
  from phase_transitions_monotonic[OF this] d
  have "\<exists>ps. planning_response ?s = JObj ps \<and> ps \<noteq> []"
    by (auto simp: defaults_def)
  with d show ?thesis by blast
qed

section \<open>Properties of the recognizers\<close>

lemma append_pages_map:
  "append_pages e parts pages =
     parts @ map (\<lambda>p. BlobPart (image_to_bytes e p) (ascii ''image/jpeg'')) pages"
  unfolding append_pages_def by (induction pages arbitrary: parts) simp_all

text \<open>
  Claim C8.  In \<^verbatim>\<open>recog3.py\<close>, a run started by the button with an uploaded PDF whose
  rasterization has the three pages \<open>p1\<close>, \<open>p2\<close>, \<open>p3\<close> sends one request: the prompt,
  followed by exactly three JPEG attachments, the encodings of \<open>p1\<close>, \<open>p2\<close>, \<open>p3\<close> in this
  order.
\<close>

theorem pdf_three_pages:
  assumes "r_api_key e \<noteq> []" and "r_clicked e"
    and "r_uploaded e = Some f" and "up_type f = ascii ''application/pdf''"
    and "convert_from_bytes e (up_read f) = Inr [p1, p2, p3]"
  shows "fst (recog3_run e) =
           [[TextPart (r_prompt e),
             BlobPart (image_to_bytes e p1) (ascii ''image/jpeg''),
             BlobPart (image_to_bytes e p2) (ascii ''image/jpeg''),
             BlobPart (image_to_bytes e p3) (ascii ''image/jpeg'')]]"
proof -
  have "up_type f \<noteq> ascii ''image/jpeg''" "up_type f \<noteq> ascii ''image/png''"
    using assms(4) by (simp_all add: ascii_def)
  then have "content_parts_of e =
    Inr (append_pages e [TextPart (r_prompt e)] [p1, p2, p3], True, [ProcessingPdf])"
    using assms(3,4,5) by (simp add: content_parts_of_def)
  then show ?thesis
    using assms(1,2) by (simp add: recog3_run_def append_pages_map)
qed

theorem pdf_three_pages_witness:
  "fst (recog3_run
     \<lparr>r_api_key = ascii ''k'',
       r_uploaded = Some \<lparr>up_name = ascii ''d.pdf'', up_type = ascii ''application/pdf'', up_read = ''%PDF''\<rparr>,
       r_url = [], r_prompt = ascii ''Summarize'', r_clicked = True,
       load_url = (\<lambda>u. Inl TypeError),
       convert_from_bytes = (\<lambda>b. Inr [1, 2, 3 :: nat]),
       image_to_bytes = (\<lambda>p. if p = 1 then ''one'' else if p = 2 then ''two'' else ''three''),
       generate_content = (\<lambda>c. Text None)\<rparr>) =
   [[TextPart (ascii ''Summarize''),
     BlobPart ''one'' (ascii ''image/jpeg''),
     BlobPart ''two'' (ascii ''image/jpeg''),
     BlobPart ''three'' (ascii ''image/jpeg'')]]"
proof -
  let ?f = "\<lparr>up_name = ascii ''d.pdf'', up_type = ascii ''application/pdf'', up_read = ''%PDF''\<rparr>"
  let ?e = "\<lparr>r_api_key = ascii ''k'', r_uploaded = Some ?f,
       r_url = [], r_prompt = ascii ''Summarize'', r_clicked = True,
       load_url = (\<lambda>u. Inl TypeError),
       convert_from_bytes = (\<lambda>b. Inr [1, 2, 3 :: nat]),
       image_to_bytes = (\<lambda>p. if p = 1 then ''one'' else if p = 2 then ''two'' else ''three''),
       generate_content = (\<lambda>c. Text None)\<rparr>"
  have "r_api_key ?e \<noteq> []" by (simp add: ascii_def)
  moreover have "r_clicked ?e" by simp
  moreover have "r_uploaded ?e = Some ?f" by simp
  moreover have "up_type ?f = ascii ''application/pdf''" by simp
  moreover have "convert_from_bytes ?e (up_read ?f) = Inr [1, 2, 3]" by simp
  ultimately have "fst (recog3_run ?e) =
           [[TextPart (r_prompt ?e),
             BlobPart (image_to_bytes ?e 1) (ascii ''image/jpeg''),
             BlobPart (image_to_bytes ?e 2) (ascii ''image/jpeg''),
             BlobPart (image_to_bytes ?e 3) (ascii ''image/jpeg'')]]"
    by (rule pdf_three_pages)
  then show ?thesis by simp
qed




section \<open>Facts about the text functions\<close>

lemma json_ws_isspace: "is_json_ws c \<Longrightarrow> py_isspace c"
  by (auto simp: is_json_ws_def py_isspace_def)

lemma sub_noncomma: "c \<noteq> COMMA \<Longrightarrow> sub_trailing_commas (c # cs) = c # sub_trailing_commas cs"
  by simp

lemma sub_comma_end:
  "dropWhile py_isspace cs = [] \<Longrightarrow> sub_trailing_commas (COMMA # cs) = COMMA # sub_trailing_commas cs"
  by (simp del: dropWhile_eq_Nil_conv)

lemma sub_comma_closer:
  "dropWhile py_isspace cs = d # ds \<Longrightarrow> is_closer d
     \<Longrightarrow> sub_trailing_commas (COMMA # cs) = d # sub_trailing_commas ds"
  by simp

lemma sub_comma_other:
  "dropWhile py_isspace cs = d # ds \<Longrightarrow> \<not> is_closer d
     \<Longrightarrow> sub_trailing_commas (COMMA # cs) = COMMA # sub_trailing_commas cs"
  by simp

declare sub_trailing_commas.simps(2) [simp del]

lemma unescape_quotes_id: "\<not> has_escaped_quote s \<Longrightarrow> unescape_quotes s = s"
  by (induction s rule: unescape_quotes.induct) auto

lemma sub_trailing_commas_id: "\<not> has_trailing_comma s \<Longrightarrow> sub_trailing_commas s = s"
proof (induction s)
  case Nil
  then show ?case by simp
next
  case (Cons c cs)
  from Cons.prems have a: "\<not> has_trailing_comma cs" by simp
  show ?case
  proof (cases "c = COMMA")
    case False
    with Cons.IH[OF a] show ?thesis by (simp add: sub_noncomma)
  next
    case True
    show ?thesis
    proof (cases "dropWhile py_isspace cs")
      case Nil
      from sub_comma_end[OF Nil] True Cons.IH[OF a] show ?thesis by simp
    next
      case (Cons d ds)
      with True Cons.prems have "\<not> is_closer d" by simp
      from sub_comma_other[OF Cons this] True Cons.IH[OF a] show ?thesis by simp
    qed
  qed
qed

lemma has_escaped_quote_append1: "has_escaped_quote a \<Longrightarrow> has_escaped_quote (a @ b)"
  by (induction a rule: has_escaped_quote.induct) auto

lemma has_escaped_quote_append2: "has_escaped_quote b \<Longrightarrow> has_escaped_quote (a @ b)"
proof (induction a)
  case Nil
  then show ?case by simp
next
  case (Cons x a)
  then show ?case by (cases "a @ b") auto
qed

lemma dropWhile_isspace_append:
  "dropWhile py_isspace cs = d # ds \<Longrightarrow> dropWhile py_isspace (cs @ b) = d # ds @ b"
  by (induction cs) (auto split: if_splits)

lemma has_trailing_comma_append1: "has_trailing_comma a \<Longrightarrow> has_trailing_comma (a @ b)"
proof (induction a)
  case Nil
  then show ?case by simp
next
  case (Cons c cs)
  show ?case
  proof (cases "has_trailing_comma cs")
    case True
    with Cons.IH show ?thesis by simp
  next
    case False
    with Cons.prems obtain d ds where "c = COMMA" "dropWhile py_isspace cs = d # ds" "is_closer d"
      by (auto split: list.splits)
    then show ?thesis by (simp add: dropWhile_isspace_append)
  qed
qed

lemma has_trailing_comma_append2: "has_trailing_comma b \<Longrightarrow> has_trailing_comma (a @ b)"
  by (induction a) auto

lemma py_strip_decomp:
  "\<exists>w1 w2. s = w1 @ py_strip s @ w2 \<and> (\<forall>c\<in>set w1. py_isspace c) \<and> (\<forall>c\<in>set w2. py_isspace c)"
proof -
  let ?m = "dropWhile py_isspace s"
  have a: "s = takeWhile py_isspace s @ ?m" by simp
  have "rev ?m = takeWhile py_isspace (rev ?m) @ dropWhile py_isspace (rev ?m)" by simp
  then have "?m = rev (dropWhile py_isspace (rev ?m)) @ rev (takeWhile py_isspace (rev ?m))"
    by (metis rev_append rev_rev_ident)
  then have b: "?m = py_strip s @ rev (takeWhile py_isspace (rev ?m))"
    by (simp add: py_strip_def py_lstrip_def py_rstrip_def)
  have "\<forall>c\<in>set (takeWhile py_isspace s). py_isspace c"
    by (auto dest: set_takeWhileD)
  moreover have "\<forall>c\<in>set (rev (takeWhile py_isspace (rev ?m))). py_isspace c"
    by (auto dest: set_takeWhileD)
  moreover have "s = takeWhile py_isspace s @ py_strip s @ rev (takeWhile py_isspace (rev ?m))"
    using a b by metis
  ultimately show ?thesis by blast
qed

lemma py_strip_no_space:
  assumes "s \<noteq> []" and "\<not> py_isspace (hd s)" and "\<not> py_isspace (last s)"
  shows "py_strip s = s"
proof -
  from assms have "dropWhile py_isspace s = s" by (cases s) auto
  moreover from assms have "dropWhile py_isspace (rev s) = rev s"
    by (cases "rev s") (auto simp: last_rev hd_rev)
  ultimately show ?thesis by (simp add: py_strip_def py_lstrip_def py_rstrip_def)
qed

lemma last_dropWhile: "dropWhile P xs \<noteq> [] \<Longrightarrow> last (dropWhile P xs) = last xs"
  by (induction xs) (auto split: if_splits)

lemma py_strip_ends:
  assumes n: "py_strip s \<noteq> []"
  shows "\<not> py_isspace (hd (py_strip s)) \<and> \<not> py_isspace (last (py_strip s))"
proof -
  let ?m = "dropWhile py_isspace s"
  let ?d = "dropWhile py_isspace (rev ?m)"
  have r: "py_strip s = rev ?d"
    by (simp add: py_strip_def py_lstrip_def py_rstrip_def)
  with n have d: "?d \<noteq> []" by simp
  then have l: "\<not> py_isspace (hd ?d)"
    by (rule hd_dropWhile)
  have "last (py_strip s) = hd ?d"
    using d by (simp add: r last_rev)
  with l have 1: "\<not> py_isspace (last (py_strip s))" by simp
  have m: "?m \<noteq> []"
  proof
    assume "?m = []"
    then have "?d = []" by (simp only: rev.simps dropWhile.simps)
    with d show False by contradiction
  qed
  then have h: "\<not> py_isspace (hd ?m)" by (rule hd_dropWhile)
  have "hd (py_strip s) = last ?d"
    using d by (simp add: r hd_rev)
  also have "\<dots> = last (rev ?m)" using d by (rule last_dropWhile)
  also have "\<dots> = hd ?m" using m by (simp add: last_rev)
  finally show ?thesis using 1 h by simp
qed

section \<open>Facts about string literals\<close>

text \<open>The characters that can follow a backslash inside an escape.\<close>

lemma hexval_char:
  "hexval x = Some v \<Longrightarrow>
     x \<noteq> QUOTE \<and> x \<noteq> BSLASH \<and> x \<noteq> COMMA \<and> x \<noteq> NL \<and> x \<noteq> BTICK \<and> 31 < x
     \<and> \<not> is_closer x \<and> \<not> py_isspace x"
  by (auto simp: hexval_def is_closer_def py_isspace_def split: if_splits)

lemma unescape_char:
  "unescape x = Some v \<Longrightarrow>
     x \<noteq> COMMA \<and> x \<noteq> NL \<and> x \<noteq> BTICK \<and> 31 < x \<and> \<not> is_closer x \<and> \<not> py_isspace x \<and> x \<noteq> 117"
  by (auto simp: unescape_def is_closer_def py_isspace_def split: if_splits)

lemma hex4_Some:
  "hex4 xs = Some u \<Longrightarrow>
     \<exists>a b c d. xs = [a, b, c, d] \<and> hexval a \<noteq> None \<and> hexval b \<noteq> None
       \<and> hexval c \<noteq> None \<and> hexval d \<noteq> None"
  by (cases xs rule: hex4.cases) (auto split: option.splits)

lemma take4_hex:
  assumes "hex4 (take 4 es) = Some u"
  shows "\<exists>a b c d r. es = a # b # c # d # r \<and> hex4 [a, b, c, d] = Some u
           \<and> hexval a \<noteq> None \<and> hexval b \<noteq> None \<and> hexval c \<noteq> None \<and> hexval d \<noteq> None"
proof -
  from hex4_Some[OF assms] obtain a b c d where
    t: "take 4 es = [a, b, c, d]" and
    h: "hexval a \<noteq> None" "hexval b \<noteq> None" "hexval c \<noteq> None" "hexval d \<noteq> None"
    by blast
  have "es = take 4 es @ drop 4 es" by simp
  with t have "es = a # b # c # d # drop 4 es" by simp
  with t h assms show ?thesis by metis
qed

lemma low_escape_iff:
  "low_escape x = Some v \<longleftrightarrow>
     (\<exists>a b c d r. x = BSLASH # 117 # a # b # c # d # r \<and> hex4 [a, b, c, d] = Some v)"
proof
  assume l: "low_escape x = Some v"
  then have t: "take 2 x = [BSLASH, 117]" and h: "hex4 (take 4 (drop 2 x)) = Some v"
    by (auto simp: low_escape_def split: if_splits)
  from take4_hex[OF h] obtain a b c d r where
    d: "drop 2 x = a # b # c # d # r" and v: "hex4 [a, b, c, d] = Some v" by blast
  have "x = take 2 x @ drop 2 x" by simp
  with t d have "x = BSLASH # 117 # a # b # c # d # r" by simp
  with v show "\<exists>a b c d r. x = BSLASH # 117 # a # b # c # d # r \<and> hex4 [a, b, c, d] = Some v"
    by blast
next
  assume "\<exists>a b c d r. x = BSLASH # 117 # a # b # c # d # r \<and> hex4 [a, b, c, d] = Some v"
  then show "low_escape x = Some v"
    by (auto simp: low_escape_def)
qed

lemma hex4_no_quote: "hex4 [a, b, c, d] = Some v \<Longrightarrow> a \<noteq> QUOTE \<and> b \<noteq> QUOTE \<and> c \<noteq> QUOTE \<and> d \<noteq> QUOTE"
  by (auto simp: hexval_def split: option.splits)

lemma low_escape_quote: "low_escape (lit @ QUOTE # rest) = low_escape lit"
proof -
  have 1: "low_escape lit = Some v \<Longrightarrow> low_escape (lit @ QUOTE # rest) = Some v" for v
    by (auto simp: low_escape_iff)
  have 2: "low_escape lit = Some v" if l: "low_escape (lit @ QUOTE # rest) = Some v" for v
  proof -
    from l obtain a b c d r where
      e: "lit @ QUOTE # rest = BSLASH # 117 # a # b # c # d # r" and h: "hex4 [a, b, c, d] = Some v"
      by (auto simp: low_escape_iff)
    from hex4_no_quote[OF h] e obtain r' where "lit = BSLASH # 117 # a # b # c # d # r'"
      by (auto simp: append_eq_Cons_conv)
    with h show ?thesis by (auto simp: low_escape_iff)
  qed
  show ?thesis
  proof (cases "low_escape lit")
    case None
    with 2 show ?thesis by (cases "low_escape (lit @ QUOTE # rest)") auto
  next
    case (Some v)
    with 1 show ?thesis by simp
  qed
qed

text \<open>The cases of \<open>read_char\<close>.\<close>

lemma read_char_cases:
  assumes "read_char s = Some (d, r)"
  obtains
    (plain) "s = d # r" "d \<noteq> BSLASH" "31 < d"
  | (escape) e where "s = BSLASH # e # r" "unescape e = Some d"
  | (single) a b c e u where "s = BSLASH # 117 # a # b # c # e # r" "hex4 [a, b, c, e] = Some u"
      "d = u" "\<not> (55296 \<le> u \<and> u \<le> 56319) \<or> low_escape r = None
               \<or> (\<exists>u2. low_escape r = Some u2 \<and> \<not> (56320 \<le> u2 \<and> u2 \<le> 57343))"
  | (pair) a b c e u a2 b2 c2 e2 u2 where
      "s = BSLASH # 117 # a # b # c # e # BSLASH # 117 # a2 # b2 # c2 # e2 # r"
      "hex4 [a, b, c, e] = Some u" "hex4 [a2, b2, c2, e2] = Some u2"
      "55296 \<le> u" "u \<le> 56319" "56320 \<le> u2" "u2 \<le> 57343"
      "d = 65536 + ((u - 55296) * 1024 + (u2 - 56320))"
proof (cases s)
  case Nil
  with assms show ?thesis by (simp add: read_char_def)
next
  case (Cons c cs)
  show ?thesis
  proof (cases "c = BSLASH")
    case False
    with assms Cons have "s = d # r" "d \<noteq> BSLASH" "31 < d"
      by (auto simp: read_char_def split: if_splits)
    then show ?thesis by (rule plain)
  next
    case True
    with assms Cons obtain e es where cs: "cs = e # es"
      by (cases cs) (auto simp: read_char_def)
    show ?thesis
    proof (cases "e = 117")
      case False
      with assms Cons True cs have "s = BSLASH # e # r" "unescape e = Some d"
        by (auto simp: read_char_def split: option.splits)
      then show ?thesis by (rule escape)
    next
      case eu: True
      with assms Cons True cs obtain u where u: "hex4 (take 4 es) = Some u"
        by (auto simp: read_char_def split: option.splits)
      from take4_hex[OF u] obtain a b c' e' r0 where
        es: "es = a # b # c' # e' # r0" and h: "hex4 [a, b, c', e'] = Some u" by blast
      let ?p = "if 55296 \<le> u \<and> u \<le> 56319 then low_escape r0 else None"
      have d4: "drop 4 es = r0" and d10: "drop 10 es = drop 6 r0"
        using es by simp_all
      from assms Cons True cs eu u d4 d10 have rc:
        "(case ?p of None \<Rightarrow> Some (u, r0)
          | Some u2 \<Rightarrow> if 56320 \<le> u2 \<and> u2 \<le> 57343
                        then Some (65536 + ((u - 55296) * 1024 + (u2 - 56320)), drop 6 r0)
                        else Some (u, r0)) = Some (d, r)"
        by (simp add: read_char_def cong: if_cong option.case_cong)
      show ?thesis
      proof (cases ?p)
        case None
        with rc have "d = u" "r = r0" by simp_all
        moreover from None have "\<not> (55296 \<le> u \<and> u \<le> 56319) \<or> low_escape r = None"
          using \<open>r = r0\<close> by (auto split: if_splits)
        ultimately show ?thesis
          using Cons True cs eu es h by (intro single[of a b c' e' u]) auto
      next
        case (Some u2)
        then have hi: "55296 \<le> u" "u \<le> 56319" and le: "low_escape r0 = Some u2"
          by (auto split: if_splits)
        show ?thesis
        proof (cases "56320 \<le> u2 \<and> u2 \<le> 57343")
          case False
          with rc Some have "d = u" "r = r0" by simp_all
          with le False Cons True cs eu es h show ?thesis
            by (intro single[of a b c' e' u]) auto
        next
          case low: True
          from le obtain a2 b2 c2 e2 r1 where
            r0: "r0 = BSLASH # 117 # a2 # b2 # c2 # e2 # r1" and h2: "hex4 [a2, b2, c2, e2] = Some u2"
            by (auto simp: low_escape_iff)
          from rc Some low r0 have "d = 65536 + ((u - 55296) * 1024 + (u2 - 56320))" "r = r1"
            by simp_all
          with Cons True cs eu es h r0 h2 hi low show ?thesis
            by (intro pair[of a b c' e' a2 b2 c2 e2 u u2]) auto
        qed
      qed
    qed
  qed
qed

text \<open>The converse: each of the four forms is read as one character.\<close>

lemma read_char_plain: "d \<noteq> BSLASH \<Longrightarrow> 31 < d \<Longrightarrow> read_char (d # r) = Some (d, r)"
  by (simp add: read_char_def)

lemma read_char_escape: "unescape e = Some d \<Longrightarrow> read_char (BSLASH # e # r) = Some (d, r)"
  using unescape_char[of e d] by (simp add: read_char_def)

lemma read_char_single:
  assumes "hex4 [a, b, c, e] = Some u"
    and "\<not> (55296 \<le> u \<and> u \<le> 56319) \<or> low_escape r = None
         \<or> (\<exists>u2. low_escape r = Some u2 \<and> \<not> (56320 \<le> u2 \<and> u2 \<le> 57343))"
  shows "read_char (BSLASH # 117 # a # b # c # e # r) = Some (u, r)"
proof -
  have "hex4 (take 4 (a # b # c # e # r)) = Some u" using assms(1) by simp
  moreover have "drop 4 (a # b # c # e # r) = r" by simp
  ultimately show ?thesis
    using assms(2) by (auto simp: read_char_def simp del: hex4.simps)
qed

lemma read_char_pair:
  assumes "hex4 [a, b, c, e] = Some u" "hex4 [a2, b2, c2, e2] = Some u2"
      "55296 \<le> u" "u \<le> 56319" "56320 \<le> u2" "u2 \<le> 57343"
  shows "read_char (BSLASH # 117 # a # b # c # e # BSLASH # 117 # a2 # b2 # c2 # e2 # r)
         = Some (65536 + ((u - 55296) * 1024 + (u2 - 56320)), r)"
proof -
  let ?es = "a # b # c # e # BSLASH # 117 # a2 # b2 # c2 # e2 # r"
  have "low_escape (BSLASH # 117 # a2 # b2 # c2 # e2 # r) = Some u2"
    using assms(2) by (auto simp: low_escape_iff)
  then have "low_escape (drop 4 ?es) = Some u2" by simp
  moreover have "hex4 (take 4 ?es) = Some u" using assms(1) by simp
  moreover have "drop 10 ?es = r" by simp
  ultimately show ?thesis
    using assms(3-6) by (simp add: read_char_def del: hex4.simps)
qed

lemma read_char_span:
  assumes "read_char s = Some (d, r)"
  shows "\<exists>pre. s = pre @ r \<and> pre \<noteq> [] \<and> (\<forall>x\<in>set pre. 31 < x)
           \<and> (hd pre \<noteq> BSLASH \<longrightarrow> pre = [d])
           \<and> (hd pre = BSLASH \<longrightarrow> COMMA \<notin> set pre)"
  using assms
proof (cases rule: read_char_cases)
  case plain
  then show ?thesis by (intro exI[of _ "[d]"]) simp
next
  case (escape e)
  with unescape_char[of e d] show ?thesis by (intro exI[of _ "[BSLASH, e]"]) simp
next
  case (single a b c e u)
  from hex4_Some[OF single(2)] have "hexval a \<noteq> None" "hexval b \<noteq> None" "hexval c \<noteq> None" "hexval e \<noteq> None"
    by simp_all
  then have "31 < a \<and> a \<noteq> COMMA" "31 < b \<and> b \<noteq> COMMA" "31 < c \<and> c \<noteq> COMMA" "31 < e \<and> e \<noteq> COMMA"
    using hexval_char by blast+
  with single show ?thesis by (intro exI[of _ "[BSLASH, 117, a, b, c, e]"]) simp
next
  case (pair a b c e u a2 b2 c2 e2 u2)
  from hex4_Some[OF pair(2)] have "hexval a \<noteq> None" "hexval b \<noteq> None" "hexval c \<noteq> None" "hexval e \<noteq> None"
    by simp_all
  then have 1: "31 < a \<and> a \<noteq> COMMA" "31 < b \<and> b \<noteq> COMMA" "31 < c \<and> c \<noteq> COMMA" "31 < e \<and> e \<noteq> COMMA"
    using hexval_char by blast+
  from hex4_Some[OF pair(3)] have "hexval a2 \<noteq> None" "hexval b2 \<noteq> None" "hexval c2 \<noteq> None" "hexval e2 \<noteq> None"
    by simp_all
  then have 2: "31 < a2 \<and> a2 \<noteq> COMMA" "31 < b2 \<and> b2 \<noteq> COMMA" "31 < c2 \<and> c2 \<noteq> COMMA" "31 < e2 \<and> e2 \<noteq> COMMA"
    using hexval_char by blast+
  from pair 1 2 show ?thesis
    by (intro exI[of _ "[BSLASH, 117, a, b, c, e, BSLASH, 117, a2, b2, c2, e2]"]) simp
qed

lemma read_char_quote:
  assumes "read_char z = Some (d, r)"
  shows "read_char (z @ QUOTE # rest) = Some (d, r @ QUOTE # rest)"
  using assms
proof (cases rule: read_char_cases)
  case plain
  then show ?thesis by (simp add: read_char_plain)
next
  case (escape e)
  then show ?thesis by (simp add: read_char_escape)
next
  case (single a b c e u)
  from single(4) have "\<not> (55296 \<le> u \<and> u \<le> 56319) \<or> low_escape (r @ QUOTE # rest) = None
         \<or> (\<exists>u2. low_escape (r @ QUOTE # rest) = Some u2 \<and> \<not> (56320 \<le> u2 \<and> u2 \<le> 57343))"
    by (simp only: low_escape_quote)
  from read_char_single[OF single(2) this] single(1,3) show ?thesis by simp
next
  case (pair a b c e u a2 b2 c2 e2 u2)
  from read_char_pair[OF pair(2-7)] pair(1,8) show ?thesis by simp
qed

lemma read_char_quote_conv:
  assumes "read_char (z @ QUOTE # rest) = Some (d, r @ QUOTE # rest)"
  shows "read_char z = Some (d, r)"
  using assms
proof (cases rule: read_char_cases)
  case plain
  then have "z @ QUOTE # rest = (d # r) @ QUOTE # rest" by simp
  then have "z = d # r" by (simp only: append_same_eq)
  with plain show ?thesis by (simp add: read_char_plain)
next
  case (escape e)
  then have "z @ QUOTE # rest = (BSLASH # e # r) @ QUOTE # rest" by simp
  then have "z = BSLASH # e # r" by (simp only: append_same_eq)
  with escape show ?thesis by (simp add: read_char_escape)
next
  case (single a b c e u)
  then have "z @ QUOTE # rest = (BSLASH # 117 # a # b # c # e # r) @ QUOTE # rest" by simp
  then have z: "z = BSLASH # 117 # a # b # c # e # r" by (simp only: append_same_eq)
  from single(4) have "\<not> (55296 \<le> u \<and> u \<le> 56319) \<or> low_escape r = None
         \<or> (\<exists>u2. low_escape r = Some u2 \<and> \<not> (56320 \<le> u2 \<and> u2 \<le> 57343))"
    by (simp only: low_escape_quote)
  from read_char_single[OF single(2) this] z single(3) show ?thesis by simp
next
  case (pair a b c e u a2 b2 c2 e2 u2)
  then have "z @ QUOTE # rest =
      (BSLASH # 117 # a # b # c # e # BSLASH # 117 # a2 # b2 # c2 # e2 # r) @ QUOTE # rest" by simp
  then have z: "z = BSLASH # 117 # a # b # c # e # BSLASH # 117 # a2 # b2 # c2 # e2 # r"
    by (simp only: append_same_eq)
  from read_char_pair[OF pair(2-7)] z pair(8) show ?thesis by simp
qed

text \<open>A string literal is a body followed by the closing quote.\<close>

lemma scan_string_body:
  "scan_string cs = Some (str, rest) \<Longrightarrow> \<exists>lit. cs = lit @ QUOTE # rest \<and> decode_body lit = Some str"
proof (induction cs arbitrary: str rule: scan_string.induct)
  case 1
  then show ?case by simp
next
  case (2 c cs)
  show ?case
  proof (cases "c = QUOTE")
    case True
    with "2.prems" show ?thesis by (intro exI[of _ "[]"]) simp
  next
    case False
    with "2.prems" obtain d r where r: "read_char (c # cs) = Some (d, r)"
      by (cases "read_char (c # cs)") auto
    with False "2.prems" obtain s' where s': "scan_string r = Some (s', rest)" and str: "str = d # s'"
      by (auto simp: push_def)
    from "2.IH"[OF False r refl s'] obtain lit' where
      l: "r = lit' @ QUOTE # rest" and b: "decode_body lit' = Some s'" by blast
    from read_char_span[OF r] obtain pre where p: "c # cs = pre @ r" "pre \<noteq> []" by blast
    then obtain pre' where pre: "pre = c # pre'" by (cases pre) auto
    from r p l have "read_char ((pre @ lit') @ QUOTE # rest) = Some (d, lit' @ QUOTE # rest)" by simp
    then have "read_char (pre @ lit') = Some (d, lit')" by (rule read_char_quote_conv)
    with pre False b str have "decode_body (pre @ lit') = Some str" by simp
    moreover from p l have "c # cs = (pre @ lit') @ QUOTE # rest" by simp
    ultimately show ?thesis by blast
  qed
qed

lemma body_scan_string:
  "decode_body lit = Some str \<Longrightarrow> scan_string (lit @ QUOTE # rest) = Some (str, rest)"
proof (induction lit arbitrary: str rule: decode_body.induct)
  case 1
  then show ?case by simp
next
  case (2 c cs)
  from "2.prems" have nq: "c \<noteq> QUOTE" by (auto split: if_splits)
  with "2.prems" obtain d r where r: "read_char (c # cs) = Some (d, r)"
    by (cases "read_char (c # cs)") auto
  with nq "2.prems" obtain s' where s': "decode_body r = Some s'" and str: "str = d # s'"
    by auto
  from "2.IH"[OF nq r refl s'] have "scan_string (r @ QUOTE # rest) = Some (s', rest)" .
  moreover from read_char_quote[OF r] have "read_char (c # cs @ QUOTE # rest) = Some (d, r @ QUOTE # rest)"
    by simp
  ultimately show ?case using nq str by (simp add: push_def)
qed

lemma decode_body_chars: "decode_body lit = Some str \<Longrightarrow> \<forall>x\<in>set lit. 31 < x"
proof (induction lit arbitrary: str rule: decode_body.induct)
  case 1
  then show ?case by simp
next
  case (2 c cs)
  from "2.prems" have nq: "c \<noteq> QUOTE" by (auto split: if_splits)
  with "2.prems" obtain d r where r: "read_char (c # cs) = Some (d, r)"
    by (cases "read_char (c # cs)") auto
  with nq "2.prems" obtain s' where s': "decode_body r = Some s'" by auto
  from "2.IH"[OF nq r refl s'] have "\<forall>x\<in>set r. 31 < x" .
  moreover from read_char_span[OF r] obtain pre where "c # cs = pre @ r" "\<forall>x\<in>set pre. 31 < x"
    by blast
  ultimately show ?case by (metis Un_iff set_append)
qed

section \<open>Numbers and constants under a change of the text that follows\<close>

text \<open>
  A function \<open>m\<close> on texts that keeps the characters of numbers and constants at the
  front, and puts none there.
\<close>

lemma keeps_Cons: "keeps_tokens m \<Longrightarrow> tok_char c \<Longrightarrow> m (c # cs) = c # m cs"
  by (simp add: keeps_tokens_def)

lemma keeps_other:
  "keeps_tokens m \<Longrightarrow> x = [] \<or> \<not> tok_char (hd x) \<Longrightarrow> m x = [] \<or> \<not> tok_char (hd (m x))"
  unfolding keeps_tokens_def by blast

lemma keeps_reflect:
  assumes k: "keeps_tokens m" and e: "m x = c # y" and c: "tok_char c"
  shows "\<exists>x'. x = c # x' \<and> y = m x'"
proof (cases x)
  case Nil
  with keeps_other[OF k, of x] e c show ?thesis by auto
next
  case (Cons a x')
  show ?thesis
  proof (cases "tok_char a")
    case True
    from keeps_Cons[OF k True, of x'] e Cons show ?thesis by simp
  next
    case False
    with keeps_other[OF k, of x] e c Cons show ?thesis by auto
  qed
qed

lemma digit_tok [simp]: "is_digit c \<Longrightarrow> tok_char c"
  by (simp add: tok_char_def)

lemma keeps_digits:
  assumes k: "keeps_tokens m"
  shows "takeWhile is_digit (m xs) = takeWhile is_digit xs
         \<and> dropWhile is_digit (m xs) = m (dropWhile is_digit xs)"
proof (induction xs)
  case Nil
  from keeps_other[OF k, of "[]"] show ?case
    by (cases "m []") (auto simp: tok_char_def)
next
  case (Cons x xs)
  show ?case
  proof (cases "is_digit x")
    case True
    then have "tok_char x" by simp
    from keeps_Cons[OF k this, of xs] True Cons.IH show ?thesis by simp
  next
    case False
    have "m (x # xs) = [] \<or> \<not> is_digit (hd (m (x # xs)))"
    proof (cases "tok_char x")
      case True
      from keeps_Cons[OF k True, of xs] False show ?thesis by simp
    next
      case nt: False
      with keeps_other[OF k, of "x # xs"] show ?thesis by auto
    qed
    then have "takeWhile is_digit (m (x # xs)) = [] \<and> dropWhile is_digit (m (x # xs)) = m (x # xs)"
      by (cases "m (x # xs)") auto
    with False show ?thesis by simp
  qed
qed

lemma scan_frac_yes:
  "is_digit b \<Longrightarrow> scan_frac (46 # b # bs) = (46 # takeWhile is_digit (b # bs), dropWhile is_digit (b # bs))"
  by (simp add: scan_frac_def)

lemma scan_frac_no:
  "\<not> (\<exists>b bs. x = 46 # b # bs \<and> is_digit b) \<Longrightarrow> scan_frac x = ([], x)"
  by (auto simp: scan_frac_def split: list.splits)

lemma keeps_frac:
  assumes k: "keeps_tokens m" and f: "scan_frac r = (f, r2)"
  shows "scan_frac (m r) = (f, m r2)"
proof (cases "\<exists>b bs. r = 46 # b # bs \<and> is_digit b")
  case True
  then obtain b bs where r: "r = 46 # b # bs" and b: "is_digit b" by blast
  have "m r = 46 # b # m bs"
    using keeps_Cons[OF k, of 46 "b # bs"] keeps_Cons[OF k, of b bs] b r
    by (simp add: tok_char_def)
  moreover have "m (b # bs) = b # m bs" using keeps_Cons[OF k, of b bs] b by simp
  ultimately show ?thesis
    using f r b keeps_digits[OF k, of "b # bs"] by (simp add: scan_frac_yes)
next
  case False
  with f have e: "f = []" "r2 = r" by (simp_all add: scan_frac_no)
  have "\<not> (\<exists>b bs. m r = 46 # b # bs \<and> is_digit b)"
  proof
    assume "\<exists>b bs. m r = 46 # b # bs \<and> is_digit b"
    then obtain b bs where mr: "m r = 46 # b # bs" and b: "is_digit b" by blast
    from keeps_reflect[OF k mr] obtain x' where x: "r = 46 # x'" "b # bs = m x'"
      by (auto simp: tok_char_def)
    from keeps_reflect[OF k x(2)[symmetric]] b obtain x'' where "x' = b # x''" by auto
    with x b False show False by simp
  qed
  with e show ?thesis by (simp add: scan_frac_no)
qed

text \<open>The sign of an exponent, and the exponent given by its parts.\<close>

lemma scan_exp_alt:
  "scan_exp r =
     (case r of
        [] \<Rightarrow> ([], r)
      | e # es \<Rightarrow>
          if e = 101 \<or> e = 69 then
            (if takeWhile is_digit (snd (exp_sign es)) = [] then ([], r)
             else (e # fst (exp_sign es) @ takeWhile is_digit (snd (exp_sign es)),
                   dropWhile is_digit (snd (exp_sign es))))
          else ([], r))"
  by (auto simp: scan_exp_def exp_sign_def Let_def split: list.splits)

lemma keeps_exp_sign:
  assumes k: "keeps_tokens m"
  shows "fst (exp_sign (m es)) = fst (exp_sign es) \<and> snd (exp_sign (m es)) = m (snd (exp_sign es))"
proof (cases es)
  case Nil
  from keeps_other[OF k, of "[]"] show ?thesis
    by (cases "m []") (auto simp: Nil exp_sign_def tok_char_def)
next
  case (Cons s t)
  show ?thesis
  proof (cases "tok_char s")
    case True
    from keeps_Cons[OF k True, of t] Cons show ?thesis by (simp add: exp_sign_def)
  next
    case False
    with keeps_other[OF k, of es] Cons have "m es = [] \<or> \<not> tok_char (hd (m es))" by simp
    then have "exp_sign (m es) = ([], m es)"
      by (cases "m es") (auto simp: exp_sign_def tok_char_def)
    moreover from False Cons have "exp_sign es = ([], es)"
      by (auto simp: exp_sign_def tok_char_def)
    ultimately show ?thesis by simp
  qed
qed

lemma keeps_exp:
  assumes k: "keeps_tokens m" and x: "scan_exp r = (ex, r3)"
  shows "scan_exp (m r) = (ex, m r3)"
proof (cases r)
  case Nil
  with x have e: "ex = []" "r3 = []" by (simp_all add: scan_exp_def)
  from keeps_other[OF k, of "[]"] have "scan_exp (m []) = ([], m [])"
    by (cases "m []") (auto simp: scan_exp_alt tok_char_def)
  with e Nil show ?thesis by simp
next
  case (Cons e es)
  show ?thesis
  proof (cases "e = 101 \<or> e = 69")
    case True
    then have "tok_char e" by (auto simp: tok_char_def)
    from keeps_Cons[OF k this, of es] have me: "m (e # es) = e # m es" .
    from keeps_exp_sign[OF k, of es] keeps_digits[OF k, of "snd (exp_sign es)"]
    have "takeWhile is_digit (snd (exp_sign (m es))) = takeWhile is_digit (snd (exp_sign es))"
      and "dropWhile is_digit (snd (exp_sign (m es))) = m (dropWhile is_digit (snd (exp_sign es)))"
      and "fst (exp_sign (m es)) = fst (exp_sign es)"
      by simp_all
    with x Cons True me show ?thesis
      by (auto simp: scan_exp_alt split: if_splits)
  next
    case False
    with x Cons have e: "ex = []" "r3 = r" by (simp_all add: scan_exp_alt)
    have "m r = [] \<or> hd (m r) \<noteq> 101 \<and> hd (m r) \<noteq> 69"
    proof (cases "tok_char e")
      case True
      from keeps_Cons[OF k True, of es] False Cons show ?thesis by simp
    next
      case nt: False
      with keeps_other[OF k, of r] Cons show ?thesis by (auto simp: tok_char_def)
    qed
    then have "scan_exp (m r) = ([], m r)"
      by (cases "m r") (auto simp: scan_exp_alt)
    with e show ?thesis by simp
  qed
qed

text \<open>The number given by its parts.\<close>

lemma scan_number_alt:
  "scan_number s =
     (case scan_int (if s \<noteq> [] \<and> hd s = 45 then tl s else s) of
        None \<Rightarrow> None
      | Some (ip, r1) \<Rightarrow>
          Some (num_value (s \<noteq> [] \<and> hd s = 45) ip (fst (scan_frac r1))
                  (fst (scan_exp (snd (scan_frac r1)))),
                snd (scan_exp (snd (scan_frac r1)))))"
proof (cases s)
  case Nil
  then show ?thesis by (simp add: scan_number_def scan_int_def)
next
  case (Cons c cs)
  show ?thesis
  proof (cases "c = 45")
    case True
    with Cons show ?thesis
      by (cases cs) (simp_all add: scan_number_def scan_int_def num_value_def Let_def split_beta)
  next
    case False
    with Cons show ?thesis
      by (simp add: scan_number_def scan_int_def num_value_def Let_def split_beta)
  qed
qed

lemma keeps_int:
  assumes k: "keeps_tokens m" and i: "scan_int s1 = Some (ip, r1)"
  shows "scan_int (m s1) = Some (ip, m r1)"
proof -
  from i obtain d ds where s1: "s1 = d # ds" and d: "48 \<le> d" "d \<le> 57"
    by (cases s1) (auto simp: scan_int_def split: if_splits)
  then have "tok_char d" by (simp add: tok_char_def is_digit_def)
  from keeps_Cons[OF k this, of ds] have "m s1 = d # m ds" by (simp add: s1)
  with i s1 d keeps_digits[OF k, of ds] show ?thesis
    by (auto simp: scan_int_def split: if_splits)
qed

lemma keeps_number:
  assumes k: "keeps_tokens m" and n: "scan_number s = Some (v, r)"
  shows "scan_number (m s) = Some (v, m r)"
proof -
  let ?s1 = "if s \<noteq> [] \<and> hd s = 45 then tl s else s"
  from n obtain ip r1 where i: "scan_int ?s1 = Some (ip, r1)"
    by (auto simp: scan_number_alt split: option.splits)
  obtain f r2 where f: "scan_frac r1 = (f, r2)" by (cases "scan_frac r1")
  obtain ex r3 where x: "scan_exp r2 = (ex, r3)" by (cases "scan_exp r2")
  from n i f x have v: "v = num_value (s \<noteq> [] \<and> hd s = 45) ip f ex" and r: "r = r3"
    by (simp_all add: scan_number_alt)
  from i have sn: "s \<noteq> []" by (auto simp: scan_int_def split: if_splits)
  then obtain c cs where s: "s = c # cs" by (cases s) auto
  from i s have tc: "tok_char c"
    by (auto simp: scan_int_def tok_char_def is_digit_def split: if_splits list.splits)
  from keeps_Cons[OF k tc, of cs] have ms: "m s = c # m cs" by (simp add: s)
  have "(if m s \<noteq> [] \<and> hd (m s) = 45 then tl (m s) else m s) = m ?s1"
  proof (cases "c = 45")
    case True
    with ms s show ?thesis by simp
  next
    case False
    with ms s show ?thesis by simp
  qed
  moreover have "(m s \<noteq> [] \<and> hd (m s) = 45) = (s \<noteq> [] \<and> hd s = 45)"
    using ms s by simp
  ultimately show ?thesis
    using keeps_int[OF k i] keeps_frac[OF k f] keeps_exp[OF k x] v r
    by (simp add: scan_number_alt[of "m s"])
qed

section \<open>Tokens\<close>

lemma tok_char_props:
  "tok_char x \<Longrightarrow> 31 < x \<and> x \<noteq> BTICK \<and> x \<noteq> QUOTE \<and> x \<noteq> COMMA \<and> \<not> py_isspace x
     \<and> \<not> is_closer x \<and> \<not> is_json_ws x \<and> x \<noteq> 123 \<and> x \<noteq> 91 \<and> x \<noteq> 58"
  by (auto simp: tok_char_def is_digit_def py_isspace_def is_closer_def is_json_ws_def)

text \<open>The tokens that are not a single character and not a string.\<close>

lemma literal_lengths:
  "length (ascii ''null'') = 4" "length (ascii ''true'') = 4" "length (ascii ''false'') = 5"
  "length (ascii ''NaN'') = 3" "length (ascii ''Infinity'') = 8" "length (ascii ''-Infinity'') = 9"
  by (simp_all add: ascii_def)

lemma next_token_alt:
  "next_token (c # cs) =
     (if c = 123 then Some (TLBrace, cs)
      else if c = 125 then Some (TRBrace, cs)
      else if c = 91 then Some (TLBrack, cs)
      else if c = 93 then Some (TRBrack, cs)
      else if c = 44 then Some (TComma, cs)
      else if c = 58 then Some (TColon, cs)
      else if c = QUOTE then
        (case scan_string cs of
           None \<Rightarrow> None
         | Some (str, rest) \<Rightarrow> Some (TStr str, rest))
      else atom_token (c # cs))"
  by (simp add: next_token_def atom_token_def literals_def literal_lengths)

lemma next_token_Nil [simp]: "next_token [] = None"
  by (simp add: next_token_def)

lemma starts_with_Cons:
  "starts_with (a # p) s \<longleftrightarrow> (\<exists>s'. s = a # s' \<and> starts_with p s')"
  by (cases s) (auto simp: starts_with_def)

lemma starts_with_Nil [simp]: "starts_with [] s"
  by (simp add: starts_with_def)

lemma starts_with_decomp: "starts_with p s \<Longrightarrow> s = p @ drop (length p) s"
  unfolding starts_with_def by (metis append_take_drop_id)

lemma keeps_starts:
  assumes k: "keeps_tokens m" and p: "\<forall>x\<in>set p. tok_char x"
  shows "(starts_with p (m s) \<longleftrightarrow> starts_with p s)
         \<and> (starts_with p s \<longrightarrow> drop (length p) (m s) = m (drop (length p) s))"
  using p
proof (induction p arbitrary: s)
  case Nil
  then show ?case by simp
next
  case (Cons a p)
  then have a: "tok_char a" and p': "\<forall>x\<in>set p. tok_char x" by simp_all
  show ?case
  proof (cases "\<exists>s'. s = a # s'")
    case True
    then obtain s' where s: "s = a # s'" by blast
    from keeps_Cons[OF k a, of s'] have "m s = a # m s'" by (simp add: s)
    with Cons.IH[OF p', of s'] s show ?thesis by (simp add: starts_with_Cons)
  next
    case False
    then have n: "\<not> starts_with (a # p) s" by (simp add: starts_with_Cons)
    have "\<not> starts_with (a # p) (m s)"
    proof
      assume "starts_with (a # p) (m s)"
      then obtain y where "m s = a # y" by (auto simp: starts_with_Cons)
      from keeps_reflect[OF k this a] False show False by blast
    qed
    with n show ?thesis by simp
  qed
qed

lemma literal_chars: "l \<in> set literals \<Longrightarrow> fst l \<noteq> [] \<and> (\<forall>x\<in>set (fst l). tok_char x)"
  by (auto simp: literals_def ascii_def tok_char_def)

lemma keeps_find:
  assumes k: "keeps_tokens m" and l: "\<forall>l\<in>set ls. \<forall>x\<in>set (fst l). tok_char x"
  shows "find (\<lambda>l. starts_with (fst l) (m s)) ls = find (\<lambda>l. starts_with (fst l) s) ls"
  using l
proof (induction ls)
  case Nil
  then show ?case by simp
next
  case (Cons a ls)
  then have "\<forall>x\<in>set (fst a). tok_char x" by simp
  from keeps_starts[OF k this, of s] Cons show ?case by simp
qed

lemma keeps_atom:
  assumes k: "keeps_tokens m" and a: "atom_token s = Some (t, r)"
  shows "atom_token (m s) = Some (t, m r)"
proof -
  have f: "find (\<lambda>l. starts_with (fst l) (m s)) literals = find (\<lambda>l. starts_with (fst l) s) literals"
    by (rule keeps_find[OF k]) (simp add: literal_chars)
  show ?thesis
  proof (cases "find (\<lambda>l. starts_with (fst l) s) literals")
    case (Some l)
    then have "l \<in> set literals" and sw: "starts_with (fst l) s"
      by (auto simp: find_Some_iff)
    from literal_chars[OF this(1)] have "\<forall>x\<in>set (fst l). tok_char x" by simp
    from keeps_starts[OF k this, of s] sw
    have "drop (length (fst l)) (m s) = m (drop (length (fst l)) s)" by simp
    with a Some f show ?thesis by (simp add: atom_token_def)
  next
    case None
    with a obtain v where n: "scan_number s = Some (v, r)" and t: "t = TAtom v"
      by (auto simp: atom_token_def split: option.splits)
    from keeps_number[OF k n] None f t show ?thesis by (simp add: atom_token_def)
  qed
qed

text \<open>The text of a token.\<close>

lemma scan_int_span:
  assumes "scan_int s = Some (ip, r)"
  shows "s = ip @ r \<and> ip \<noteq> [] \<and> (\<forall>x\<in>set ip. tok_char x)"
proof -
  from assms obtain d ds where s: "s = d # ds" and d: "48 \<le> d" "d \<le> 57"
    by (cases s) (auto simp: scan_int_def split: if_splits)
  then have td: "tok_char d" by (simp add: tok_char_def is_digit_def)
  have tw: "\<forall>x\<in>set (takeWhile is_digit ds). tok_char x"
    by (auto dest: set_takeWhileD)
  show ?thesis
  proof (cases "d = 48")
    case True
    with assms s d have "ip = [d]" "r = ds"
      by (simp_all add: scan_int_def)
    with s td show ?thesis by simp
  next
    case False
    with assms s d have "ip = d # takeWhile is_digit ds" "r = dropWhile is_digit ds"
      by (simp_all add: scan_int_def)
    with s td tw show ?thesis by simp
  qed
qed

lemma scan_frac_span:
  assumes "scan_frac r = (f, r2)"
  shows "r = f @ r2 \<and> (\<forall>x\<in>set f. tok_char x)"
proof (cases "\<exists>b bs. r = 46 # b # bs \<and> is_digit b")
  case True
  then obtain b bs where r: "r = 46 # b # bs" and b: "is_digit b" by blast
  from assms r b have f: "f = 46 # takeWhile is_digit (b # bs)" and r2: "r2 = dropWhile is_digit (b # bs)"
    by (simp_all only: scan_frac_yes prod.inject)
  have "\<forall>x\<in>set (takeWhile is_digit (b # bs)). tok_char x"
    by (auto dest: set_takeWhileD)
  moreover have "tok_char 46" by (simp add: tok_char_def)
  moreover have "r = f @ r2" unfolding f r2 r by simp
  ultimately show ?thesis unfolding f by simp
next
  case False
  with assms show ?thesis by (simp add: scan_frac_no)
qed

lemma exp_sign_span: "es = fst (exp_sign es) @ snd (exp_sign es) \<and> (\<forall>x\<in>set (fst (exp_sign es)). tok_char x)"
  by (cases es) (auto simp: exp_sign_def tok_char_def)

lemma scan_exp_span:
  assumes "scan_exp r = (ex, r3)"
  shows "r = ex @ r3 \<and> (\<forall>x\<in>set ex. tok_char x)"
proof (cases r)
  case Nil
  with assms show ?thesis by (simp add: scan_exp_def)
next
  case (Cons e es)
  let ?g = "fst (exp_sign es)"
  let ?t = "snd (exp_sign es)"
  have d: "\<forall>x\<in>set (takeWhile is_digit ?t). tok_char x" by (auto dest: set_takeWhileD)
  show ?thesis
  proof (cases "(e = 101 \<or> e = 69) \<and> takeWhile is_digit ?t \<noteq> []")
    case True
    with assms Cons have ex: "ex = e # ?g @ takeWhile is_digit ?t"
      and r3: "r3 = dropWhile is_digit ?t"
      by (simp_all add: scan_exp_alt)
    from True have te: "tok_char e" by (auto simp: tok_char_def)
    have "es = ?g @ ?t" using exp_sign_span[of es] by simp
    then have "es = ?g @ takeWhile is_digit ?t @ dropWhile is_digit ?t" by simp
    then have "r = ex @ r3" unfolding ex r3 Cons by simp
    moreover have "\<forall>x\<in>set ex. tok_char x"
      unfolding ex using te d exp_sign_span[of es, THEN conjunct2] by auto
    ultimately show ?thesis by simp
  next
    case False
    with assms Cons have "ex = []" "r3 = r" by (auto simp: scan_exp_alt split: if_splits)
    then show ?thesis by simp
  qed
qed

lemma scan_number_span:
  assumes "scan_number s = Some (v, r)"
  shows "\<exists>pre. s = pre @ r \<and> pre \<noteq> [] \<and> (\<forall>x\<in>set pre. tok_char x)"
proof -
  let ?sg = "if s \<noteq> [] \<and> hd s = 45 then [45 :: nat] else []"
  let ?s1 = "if s \<noteq> [] \<and> hd s = 45 then tl s else s"
  from assms obtain ip r1 where i: "scan_int ?s1 = Some (ip, r1)"
    by (auto simp: scan_number_alt split: option.splits)
  obtain f r2 where f: "scan_frac r1 = (f, r2)" by (cases "scan_frac r1")
  obtain ex r3 where x: "scan_exp r2 = (ex, r3)" by (cases "scan_exp r2")
  from assms i f x have r: "r = r3" by (simp add: scan_number_alt)
  have a: "s = ?sg @ ?s1" by (cases s) auto
  have b: "?s1 = ip @ r1" using scan_int_span[OF i] by blast
  have c: "r1 = f @ r2" using scan_frac_span[OF f] by blast
  have d: "r2 = ex @ r" using scan_exp_span[OF x] r by blast
  have "?sg @ ?s1 = ?sg @ ip @ f @ ex @ r"
    by (subst b, subst c, subst d) (rule refl)
  with a have "s = (?sg @ ip @ f @ ex) @ r" by simp
  moreover have "?sg @ ip @ f @ ex \<noteq> []" using scan_int_span[OF i] by simp
  moreover have "tok_char 45" by (simp add: tok_char_def)
  then have "\<forall>x\<in>set (?sg @ ip @ f @ ex). tok_char x"
    using scan_int_span[OF i] scan_frac_span[OF f] scan_exp_span[OF x] by auto
  ultimately show ?thesis by blast
qed

lemma atom_token_span:
  assumes "atom_token s = Some (t, r)"
  shows "\<exists>pre. s = pre @ r \<and> pre \<noteq> [] \<and> (\<forall>x\<in>set pre. tok_char x) \<and> (\<exists>v. t = TAtom v)"
proof (cases "find (\<lambda>l. starts_with (fst l) s) literals")
  case (Some l)
  then have "l \<in> set literals" and sw: "starts_with (fst l) s"
    by (auto simp: find_Some_iff)
  from literal_chars[OF this(1)] have c: "fst l \<noteq> []" "\<forall>x\<in>set (fst l). tok_char x" by simp_all
  from assms Some have "r = drop (length (fst l)) s" "t = TAtom (snd l)"
    by (simp_all add: atom_token_def)
  with starts_with_decomp[OF sw] c show ?thesis by (intro exI[of _ "fst l"]) simp
next
  case None
  with assms obtain v where n: "scan_number s = Some (v, r)" and t: "t = TAtom v"
    by (auto simp: atom_token_def split: option.splits)
  from scan_number_span[OF n] t show ?thesis by blast
qed

lemma next_token_span:
  assumes "next_token s = Some (t, r)"
  shows "\<exists>pre. s = pre @ r \<and> pre \<noteq> [] \<and> (\<forall>x\<in>set pre. 31 < x)
           \<and> hd pre \<noteq> BTICK \<and> last pre \<noteq> BTICK
           \<and> \<not> py_isspace (hd pre) \<and> \<not> py_isspace (last pre)"
proof (cases s)
  case Nil
  with assms show ?thesis by simp
next
  case (Cons c cs)
  show ?thesis
  proof (cases "c = 123 \<or> c = 125 \<or> c = 91 \<or> c = 93 \<or> c = 44 \<or> c = 58")
    case True
    with assms Cons have "r = cs" by (auto simp: next_token_alt split: if_splits)
    with True Cons show ?thesis
      by (intro exI[of _ "[c]"]) (auto simp: py_isspace_def)
  next
    case ns: False
    show ?thesis
    proof (cases "c = QUOTE")
      case True
      with assms Cons ns obtain str where "scan_string cs = Some (str, r)"
        by (auto simp: next_token_alt split: option.splits)
      from scan_string_body[OF this] obtain lit where
        l: "cs = lit @ QUOTE # r" and b: "decode_body lit = Some str" by blast
      from decode_body_chars[OF b] have "\<forall>x\<in>set (QUOTE # lit @ [QUOTE]). 31 < x" by simp
      moreover have "s = (QUOTE # lit @ [QUOTE]) @ r" using Cons True l by simp
      ultimately show ?thesis
        by (intro exI[of _ "QUOTE # lit @ [QUOTE]"]) (simp add: py_isspace_def)
    next
      case False
      with assms Cons ns have "atom_token s = Some (t, r)"
        by (simp add: next_token_alt)
      from atom_token_span[OF this] obtain pre where
        p: "s = pre @ r" "pre \<noteq> []" "\<forall>x\<in>set pre. tok_char x" by blast
      then have "tok_char (hd pre)" "tok_char (last pre)" by simp_all
      with p tok_char_props show ?thesis
        by (intro exI[of _ pre]) blast
    qed
  qed
qed

section \<open>Texts that the lexer accepts\<close>

lemma lex_json_Cons:
  "lex_json (c # cs) = Some ts \<Longrightarrow> \<not> is_json_ws c \<Longrightarrow>
     \<exists>t r ts'. next_token (c # cs) = Some (t, r) \<and> lex_json r = Some ts' \<and> ts = t # ts'"
  by (auto simp: tcons_def split: option.splits)

lemma lex_json_token:
  "next_token (c # cs) = Some (t, r) \<Longrightarrow> \<not> is_json_ws c \<Longrightarrow>
     lex_json (c # cs) = tcons t (lex_json r)"
  by simp

lemma lex_json_ws: "is_json_ws c \<Longrightarrow> lex_json (c # cs) = lex_json cs"
  by simp

declare lex_json.simps(2) [simp del]

lemma token_start:
  assumes "next_token (c # cs) = Some (t, r)"
  shows "\<not> py_isspace c \<and> c \<noteq> BTICK \<and> 31 < c"
proof -
  from next_token_span[OF assms] obtain pre where
    p: "c # cs = pre @ r" "pre \<noteq> []" "\<forall>x\<in>set pre. 31 < x" "hd pre \<noteq> BTICK" "\<not> py_isspace (hd pre)"
    by blast
  then have "hd pre = c" by (cases pre) auto
  with p show ?thesis by auto
qed

lemma lex_lstrip: "lex_json s = Some ts \<Longrightarrow> lex_json (dropWhile py_isspace s) = Some ts"
proof (induction s)
  case Nil
  then show ?case by simp
next
  case (Cons c cs)
  show ?case
  proof (cases "py_isspace c")
    case False
    with Cons.prems show ?thesis by simp
  next
    case True
    have "is_json_ws c"
    proof (rule ccontr)
      assume n: "\<not> is_json_ws c"
      from lex_json_Cons[OF Cons.prems n] obtain t r where "next_token (c # cs) = Some (t, r)"
        by blast
      from token_start[OF this] True show False by simp
    qed
    with Cons True show ?thesis by (simp add: lex_json_ws)
  qed
qed

text \<open>A whitespace character at the end.\<close>

lemma keeps_append: "\<not> tok_char w \<Longrightarrow> keeps_tokens (\<lambda>x. x @ [w])"
  by (auto simp: keeps_tokens_def hd_append)

lemma scan_number_defined:
  "scan_number s \<noteq> None \<longleftrightarrow> scan_int (if s \<noteq> [] \<and> hd s = 45 then tl s else s) \<noteq> None"
  by (auto simp: scan_number_alt split: option.splits)

lemma scan_int_defined: "scan_int s \<noteq> None \<longleftrightarrow> (\<exists>d ds. s = d # ds \<and> is_digit d)"
  by (cases s) (auto simp: scan_int_def is_digit_def)

lemma scan_number_digit: "is_digit d \<Longrightarrow> scan_number (d # xs) \<noteq> None"
  using scan_number_defined[of "d # xs"] scan_int_defined[of "d # xs"]
  by (auto simp: is_digit_def)

lemma scan_number_minus_digit: "is_digit d \<Longrightarrow> scan_number (45 # d # xs) \<noteq> None"
  using scan_number_defined[of "45 # d # xs"] scan_int_defined[of "d # xs"]
  by auto

lemma keeps_number_defined:
  assumes k: "keeps_tokens m" and n: "scan_number (m s) \<noteq> None"
  shows "scan_number s \<noteq> None"
proof -
  let ?s1 = "\<lambda>s. if s \<noteq> [] \<and> hd s = 45 then tl s else s"
  from n have "scan_int (?s1 (m s)) \<noteq> None"
    using scan_number_defined[of "m s"] by blast
  then obtain d ds where d: "?s1 (m s) = d # ds" "is_digit d"
    using scan_int_defined[of "?s1 (m s)"] by blast
  have t45: "tok_char 45" by (simp add: tok_char_def)
  show ?thesis
  proof (cases "m s \<noteq> [] \<and> hd (m s) = 45")
    case True
    then obtain y where ms: "m s = 45 # y" by (cases "m s") auto
    from keeps_reflect[OF k ms t45] obtain x' where x: "s = 45 # x'" "y = m x'" by blast
    with d ms have "m x' = d # ds" by simp
    from keeps_reflect[OF k this] d(2) obtain x'' where "x' = d # x''" by auto
    with x scan_number_minus_digit[OF d(2)] show ?thesis by simp
  next
    case False
    with d have ms: "m s = d # ds" by (auto split: if_splits)
    from keeps_reflect[OF k ms] d(2) obtain x' where "s = d # x'" by auto
    with scan_number_digit[OF d(2)] show ?thesis by simp
  qed
qed

lemma keeps_atom_conv:
  assumes k: "keeps_tokens m" and a: "atom_token (m s) = Some (t, r')"
  shows "\<exists>r. atom_token s = Some (t, r) \<and> r' = m r"
proof -
  have f: "find (\<lambda>l. starts_with (fst l) (m s)) literals = find (\<lambda>l. starts_with (fst l) s) literals"
    by (rule keeps_find[OF k]) (simp add: literal_chars)
  have "atom_token s \<noteq> None"
  proof (cases "find (\<lambda>l. starts_with (fst l) s) literals")
    case (Some l)
    then show ?thesis by (simp add: atom_token_def)
  next
    case None
    with a f have "scan_number (m s) \<noteq> None"
      by (auto simp: atom_token_def split: option.splits)
    from keeps_number_defined[OF k this] None show ?thesis
      by (auto simp: atom_token_def split: option.splits)
  qed
  then obtain t0 r where s: "atom_token s = Some (t0, r)" by auto
  from keeps_atom[OF k s] a show ?thesis using s by simp
qed

lemma next_token_append:
  assumes n: "next_token ((c # cs) @ [w]) = Some (t, r')" and w: "py_isspace w"
  shows "\<exists>r. r' = r @ [w] \<and> next_token (c # cs) = Some (t, r)"
proof (cases "c = 123 \<or> c = 125 \<or> c = 91 \<or> c = 93 \<or> c = 44 \<or> c = 58")
  case True
  with n show ?thesis by (auto simp: next_token_alt split: if_splits)
next
  case ns: False
  show ?thesis
  proof (cases "c = QUOTE")
    case True
    with n ns obtain str where s: "scan_string (cs @ [w]) = Some (str, r')" and t: "t = TStr str"
      by (auto simp: next_token_alt split: option.splits)
    from scan_string_body[OF s] obtain lit where
      l: "cs @ [w] = lit @ QUOTE # r'" and b: "decode_body lit = Some str" by blast
    from w have wq: "w \<noteq> QUOTE" by (auto simp: py_isspace_def)
    have "r' \<noteq> []"
    proof
      assume "r' = []"
      with l have "last (cs @ [w]) = last (lit @ [QUOTE])" by simp
      with wq show False by simp
    qed
    then obtain r x where r': "r' = r @ [x]" by (cases r' rule: rev_cases) auto
    with l have "(cs @ [w]) = (lit @ QUOTE # r) @ [x]" by simp
    then have x: "x = w" and cs: "cs = lit @ QUOTE # r" by simp_all
    from body_scan_string[OF b, of r] cs have "scan_string cs = Some (str, r)" by simp
    with True t r' x show ?thesis by (simp add: next_token_alt)
  next
    case False
    with n ns have "atom_token ((c # cs) @ [w]) = Some (t, r')"
      by (simp add: next_token_alt)
    moreover from w have "\<not> tok_char w" using tok_char_props by blast
    ultimately obtain r where "atom_token (c # cs) = Some (t, r)" "r' = r @ [w]"
      using keeps_atom_conv[OF keeps_append, of w "c # cs" t r'] by blast
    with False ns show ?thesis by (simp add: next_token_alt)
  qed
qed

lemma lex_append_ws:
  "lex_json (s @ [w]) = Some ts \<Longrightarrow> py_isspace w \<Longrightarrow> lex_json s = Some ts"
proof (induction s arbitrary: ts rule: length_induct)
  case (1 s)
  show ?case
  proof (cases s)
    case Nil
    with "1.prems" have l: "lex_json [w] = Some ts" by simp
    have "is_json_ws w"
    proof (rule ccontr)
      assume n: "\<not> is_json_ws w"
      from lex_json_Cons[OF l n] obtain t r where "next_token [w] = Some (t, r)" by blast
      from token_start[OF this] "1.prems"(2) show False by simp
    qed
    with l Nil show ?thesis by (simp add: lex_json_ws)
  next
    case (Cons c cs)
    show ?thesis
    proof (cases "is_json_ws c")
      case True
      with "1.prems" Cons have "lex_json (cs @ [w]) = Some ts" by (simp add: lex_json_ws)
      with "1.IH" Cons "1.prems"(2) have "lex_json cs = Some ts" by simp
      with True Cons show ?thesis by (simp add: lex_json_ws)
    next
      case False
      from "1.prems"(1) Cons have l: "lex_json (c # (cs @ [w])) = Some ts" by simp
      from lex_json_Cons[OF l False] obtain t r' ts' where
        n: "next_token (c # cs @ [w]) = Some (t, r')" and lr: "lex_json r' = Some ts'"
        and ts: "ts = t # ts'" by blast
      from n have "next_token ((c # cs) @ [w]) = Some (t, r')" by simp
      from next_token_append[OF this "1.prems"(2)] obtain r where
        r: "r' = r @ [w]" and nt: "next_token (c # cs) = Some (t, r)" by blast
      from next_token_length[OF nt] Cons have "length r < length s" by simp
      with "1.IH" lr r "1.prems"(2) have "lex_json r = Some ts'" by blast
      with lex_json_token[OF nt False] ts Cons show ?thesis by (simp add: tcons_def)
    qed
  qed
qed

lemma lex_append_spaces:
  "lex_json (s @ ws) = Some ts \<Longrightarrow> \<forall>w\<in>set ws. py_isspace w \<Longrightarrow> lex_json s = Some ts"
proof (induction ws rule: rev_induct)
  case Nil
  then show ?case by simp
next
  case (snoc w ws)
  from snoc.prems have "lex_json ((s @ ws) @ [w]) = Some ts" "py_isspace w" by simp_all
  from lex_append_ws[OF this] snoc show ?case by simp
qed

lemma lex_strip:
  assumes "lex_json s = Some ts"
  shows "lex_json (py_strip s) = Some ts"
proof -
  from py_strip_decomp[of s] obtain w1 w2 where
    s: "s = w1 @ py_strip s @ w2" and w1: "\<forall>c\<in>set w1. py_isspace c" and w2: "\<forall>c\<in>set w2. py_isspace c"
    by blast
  from assms s have "lex_json ((w1 @ py_strip s) @ w2) = Some ts" by simp
  from lex_append_spaces[OF this w2] have "lex_json (w1 @ py_strip s) = Some ts" .
  from lex_lstrip[OF this] have a: "lex_json (dropWhile py_isspace (w1 @ py_strip s)) = Some ts" .
  have "dropWhile py_isspace (w1 @ py_strip s) = dropWhile py_isspace (py_strip s)"
    using w1 by (induction w1) auto
  also have "\<dots> = py_strip s"
  proof (cases "py_strip s")
    case Nil
    then show ?thesis by simp
  next
    case (Cons a list)
    with py_strip_ends[of s] show ?thesis by simp
  qed
  finally show ?thesis using a by simp
qed

lemma py_strip_idem: "py_strip (py_strip s) = py_strip s"
proof (cases "py_strip s = []")
  case True
  have "py_strip [] = []" by (simp add: py_strip_def py_lstrip_def py_rstrip_def)
  then show ?thesis by (simp only: True)
next
  case False
  with py_strip_ends[OF False] show ?thesis by (intro py_strip_no_space) simp_all
qed

text \<open>A text that the lexer accepts does not start with \<^verbatim>\<open>json\<close>.\<close>

lemma atom_token_start:
  assumes "atom_token (c # cs) = Some (t, r)"
  shows "c \<noteq> 74 \<and> c \<noteq> 106"
proof (cases "find (\<lambda>l. starts_with (fst l) (c # cs)) literals")
  case (Some l)
  then have "l \<in> set literals" "starts_with (fst l) (c # cs)" by (auto simp: find_Some_iff)
  then show ?thesis
    by (auto simp: literals_def starts_with_def ascii_def)
next
  case None
  with assms have "scan_number (c # cs) \<noteq> None"
    by (auto simp: atom_token_def split: option.splits)
  then show ?thesis
    using scan_number_defined[of "c # cs"]
    by (auto simp: scan_int_def split: if_splits list.splits)
qed

lemma lex_no_json_prefix:
  assumes "lex_json s = Some ts"
  shows "\<not> lower_startswith_json s"
proof
  assume j: "lower_startswith_json s"
  then obtain a b c d r where s: "s = a # b # c # d # r" and a: "a = 74 \<or> a = 106"
    by (cases s rule: lower_startswith_json.cases) auto
  from a have nw: "\<not> is_json_ws a" by (auto simp: is_json_ws_def)
  from lex_json_Cons[OF assms[unfolded s] nw] obtain t r' where
    "next_token (a # b # c # d # r) = Some (t, r')" by blast
  with a have "atom_token (a # b # c # d # r) = Some (t, r')"
    by (auto simp: next_token_alt)
  from atom_token_start[OF this] a show False by simp
qed

text \<open>A text that the lexer accepts has no fence for the two patterns to match.\<close>

lemma fence_open_plain:
  "\<forall>x\<in>set pre. x \<noteq> NL \<Longrightarrow> sub_fence_open False (pre @ r) = pre @ sub_fence_open False r"
  by (induction pre) auto

lemma fence_open_token:
  assumes "\<forall>x\<in>set pre. x \<noteq> NL" and "pre \<noteq> []" and "hd pre \<noteq> BTICK"
  shows "sub_fence_open b (pre @ r) = pre @ sub_fence_open False r"
proof -
  from assms obtain c pre' where p: "pre = c # pre'" by (cases pre) auto
  with assms have "c \<noteq> BTICK" "c \<noteq> NL" "\<forall>x\<in>set pre'. x \<noteq> NL" by simp_all
  with fence_open_plain[of pre' r] p show ?thesis by simp
qed

lemma lex_fence_open:
  assumes r: "\<forall>b. sub_fence_open b r = r'"
  shows "lex_json s = Some ts \<Longrightarrow> sub_fence_open b (s @ r) = s @ r'"
proof (induction s arbitrary: ts b rule: length_induct)
  case (1 s)
  show ?case
  proof (cases s)
    case Nil
    with r show ?thesis by simp
  next
    case (Cons c cs)
    show ?thesis
    proof (cases "is_json_ws c")
      case True
      then have nb: "c \<noteq> BTICK" by (auto simp: is_json_ws_def)
      from True "1.prems" Cons have "lex_json cs = Some ts" by (simp add: lex_json_ws)
      with "1.IH" Cons have "sub_fence_open (c = NL) (cs @ r) = cs @ r'" by simp
      with nb Cons show ?thesis by simp
    next
      case False
      from lex_json_Cons[OF "1.prems"[unfolded Cons] False] obtain t rest ts' where
        n: "next_token (c # cs) = Some (t, rest)" and lr: "lex_json rest = Some ts'" by blast
      from next_token_span[OF n] obtain pre where
        p: "c # cs = pre @ rest" "pre \<noteq> []" "\<forall>x\<in>set pre. 31 < x" "hd pre \<noteq> BTICK" by blast
      from p(3) have nl: "\<forall>x\<in>set pre. x \<noteq> NL" by auto
      from next_token_length[OF n] Cons have "length rest < length s" by simp
      with "1.IH" lr have "sub_fence_open False (rest @ r) = rest @ r'" by blast
      with fence_open_token[OF nl p(2,4), of b "rest @ r"] p(1) Cons show ?thesis by simp
    qed
  qed
qed

lemma fence_close_token:
  assumes "\<forall>x\<in>set pre. x \<noteq> NL" and "pre \<noteq> []" and "last pre \<noteq> BTICK"
  shows "sub_fence_close (pre @ r) = pre @ sub_fence_close r"
  using assms
proof (induction pre)
  case Nil
  then show ?case by simp
next
  case (Cons x pre)
  show ?case
  proof (cases pre)
    case Nil
    with Cons.prems show ?thesis by simp
  next
    case c2: (Cons y pre2)
    from Cons.prems c2 have ih: "sub_fence_close (pre @ r) = pre @ sub_fence_close r"
      by (intro Cons.IH) simp_all
    have neg: "\<not> (x = BTICK \<and> take 2 (pre @ r) = [BTICK, BTICK]
             \<and> (drop 2 (pre @ r) = [] \<or> hd (drop 2 (pre @ r)) = NL))"
    proof (cases pre2)
      case Nil
      with c2 Cons.prems show ?thesis by auto
    next
      case c3: (Cons z pre3)
      show ?thesis
      proof (cases pre3)
        case Nil
        with c2 c3 Cons.prems show ?thesis by auto
      next
        case c4: (Cons u pre4)
        with c2 c3 Cons.prems show ?thesis by auto
      qed
    qed
    show ?thesis by (simp only: append_Cons sub_fence_close.simps neg if_False ih)
  qed
qed

lemma lex_fence_close: "lex_json s = Some ts \<Longrightarrow> sub_fence_close s = s"
proof (induction s arbitrary: ts rule: length_induct)
  case (1 s)
  show ?case
  proof (cases s)
    case Nil
    then show ?thesis by simp
  next
    case (Cons c cs)
    show ?thesis
    proof (cases "is_json_ws c")
      case True
      then have nb: "c \<noteq> BTICK" by (auto simp: is_json_ws_def)
      from True "1.prems" Cons have "lex_json cs = Some ts" by (simp add: lex_json_ws)
      with "1.IH" Cons have "sub_fence_close cs = cs" by simp
      with nb Cons show ?thesis by simp
    next
      case False
      from lex_json_Cons[OF "1.prems"[unfolded Cons] False] obtain t rest ts' where
        n: "next_token (c # cs) = Some (t, rest)" and lr: "lex_json rest = Some ts'" by blast
      from next_token_span[OF n] obtain pre where
        p: "c # cs = pre @ rest" "pre \<noteq> []" "\<forall>x\<in>set pre. 31 < x" "last pre \<noteq> BTICK" by blast
      from p(3) have nl: "\<forall>x\<in>set pre. x \<noteq> NL" by auto
      from next_token_length[OF n] Cons have "length rest < length s" by simp
      with "1.IH" lr have "sub_fence_close rest = rest" by blast
      with fence_close_token[OF nl p(2,4), of rest] p(1) Cons show ?thesis by simp
    qed
  qed
qed

section \<open>A fenced JSON text\<close>

lemma py_strip_Cons_space: "py_isspace w \<Longrightarrow> py_strip (w # s) = py_strip s"
  by (simp add: py_strip_def py_lstrip_def py_rstrip_def)

lemma py_rstrip_append_space: "py_isspace w \<Longrightarrow> py_rstrip (s @ [w]) = py_rstrip s"
  by (simp add: py_rstrip_def)

lemma py_strip_append_space:
  assumes "py_isspace w"
  shows "py_strip (s @ [w]) = py_strip s"
proof (cases "dropWhile py_isspace s")
  case Nil
  then have "\<forall>x\<in>set s. py_isspace x" by (simp add: dropWhile_eq_Nil_conv)
  with assms have "dropWhile py_isspace (s @ [w]) = []" by simp
  with Nil show ?thesis by (simp only: py_strip_def py_lstrip_def)
next
  case (Cons d ds)
  from dropWhile_isspace_append[OF Cons, of "[w]"] Cons
  have "dropWhile py_isspace (s @ [w]) = dropWhile py_isspace s @ [w]" by simp
  then show ?thesis
    by (simp only: py_strip_def py_lstrip_def py_rstrip_append_space[OF assms])
qed

lemma fenced_strip: "py_strip (fenced c) = fenced c"
  by (rule py_strip_no_space) (simp_all add: fenced_def ascii_def py_isspace_def)

lemma fenced_not_json: "lex_json (fenced c) = None"
proof -
  have f: "fenced c = BTICK # tl (fenced c)" by (simp add: fenced_def ascii_def)
  have "next_token (BTICK # tl (fenced c)) = None"
  proof (cases "next_token (BTICK # tl (fenced c))")
    case (Some p)
    then obtain t r where "next_token (BTICK # tl (fenced c)) = Some (t, r)" by (cases p) auto
    from token_start[OF this] show ?thesis by simp
  qed simp
  then have "lex_json (BTICK # tl (fenced c)) = None"
    by (simp add: lex_json.simps(2) is_json_ws_def)
  with f show ?thesis by simp
qed

lemma fenced_open:
  assumes "lex_json c = Some ts"
  shows "sub_fence_open True (fenced c) = NL # c @ [NL]"
proof -
  have e: "\<forall>b. sub_fence_open b [NL, BTICK, BTICK, BTICK] = [NL]" by simp
  have "sub_fence_open True (fenced c) = NL # sub_fence_open True (c @ [NL, BTICK, BTICK, BTICK])"
    by (simp add: fenced_def ascii_def)
  with lex_fence_open[OF e assms] show ?thesis by simp
qed

lemma strip_escaped: "\<not> has_escaped_quote s \<Longrightarrow> \<not> has_escaped_quote (py_strip s)"
proof -
  assume n: "\<not> has_escaped_quote s"
  from py_strip_decomp[of s] obtain w1 w2 where s: "s = w1 @ py_strip s @ w2" by blast
  show "\<not> has_escaped_quote (py_strip s)"
  proof
    assume "has_escaped_quote (py_strip s)"
    then have "has_escaped_quote (w1 @ py_strip s @ w2)"
      by (intro has_escaped_quote_append2 has_escaped_quote_append1)
    with s n show False by simp
  qed
qed

lemma strip_trailing: "\<not> has_trailing_comma s \<Longrightarrow> \<not> has_trailing_comma (py_strip s)"
proof -
  assume n: "\<not> has_trailing_comma s"
  from py_strip_decomp[of s] obtain w1 w2 where s: "s = w1 @ py_strip s @ w2" by blast
  show "\<not> has_trailing_comma (py_strip s)"
  proof
    assume "has_trailing_comma (py_strip s)"
    then have "has_trailing_comma (w1 @ py_strip s @ w2)"
      by (intro has_trailing_comma_append2 has_trailing_comma_append1)
    with s n show False by simp
  qed
qed

lemma clean_fenced:
  assumes l: "lex_json c = Some ts" and e: "\<not> has_escaped_quote c" and t: "\<not> has_trailing_comma c"
  shows "clean_json_text (fenced c) = py_strip c"
proof -
  have ne: "fenced c \<noteq> []" by (simp add: fenced_def)
  have r2: "sub_fence_open True (py_strip (fenced c)) = NL # c @ [NL]"
    by (simp only: fenced_strip fenced_open[OF l])
  have sp: "py_isspace NL" by (simp add: py_isspace_def)
  have "py_strip (NL # c @ [NL]) = py_strip ((NL # c) @ [NL])" by simp
  also have "\<dots> = py_strip c"
    by (simp only: py_strip_append_space[OF sp] py_strip_Cons_space[OF sp])
  finally have st: "py_strip (NL # c @ [NL]) = py_strip c" .
  from lex_strip[OF l] have ls: "lex_json (py_strip c) = Some ts" .
  have r3: "sub_fence_close (py_strip c) = py_strip c" by (rule lex_fence_close[OF ls])
  have r4: "\<not> lower_startswith_json (py_strip c)" by (rule lex_no_json_prefix[OF ls])
  have r5: "unescape_quotes (py_strip c) = py_strip c"
    by (rule unescape_quotes_id[OF strip_escaped[OF e]])
  have r6: "sub_trailing_commas (py_strip c) = py_strip c"
    by (rule sub_trailing_commas_id[OF strip_trailing[OF t]])
  show ?thesis
    unfolding clean_json_text_def Let_def
    by (simp only: ne if_False r2 st r3 r4 r5 r6 py_strip_idem)
qed

lemma json_loads_Inr:
  "json_loads s = Inr v \<longleftrightarrow> (\<exists>ts. lex_json s = Some ts \<and> parse_toks (MValue, []) ts = Some v)"
  by (auto simp: json_loads_def split: option.splits)

text \<open>
  Claim C1, amended.  For every raw gateway text that is a fenced code block tagged
  \<^verbatim>\<open>json\<close> around a content that parses as JSON, and whose content has no backslash
  directly followed by a quote and no comma followed (after optional whitespace) by a
  closing bracket or brace, string literals included, \<^verbatim>\<open>parse_gemini_json\<close> returns the
  value that parsing the content directly gives.
\<close>

theorem fenced_json_same_value:
  assumes "json_loads c = Inr v" and "\<not> has_escaped_quote c" and "\<not> has_trailing_comma c"
  shows "parse_gemini_json (fenced c) = Inr v"
proof -
  from assms(1) obtain ts where l: "lex_json c = Some ts" and p: "parse_toks (MValue, []) ts = Some v"
    by (auto simp: json_loads_Inr)
  have ne: "fenced c \<noteq> []" by (simp add: fenced_def)
  have f: "json_loads (fenced c) = Inl (JSONDecodeError (fenced c))"
    by (simp add: json_loads_def fenced_not_json)
  from lex_strip[OF l] p have "json_loads (py_strip c) = Inr v"
    by (simp add: json_loads_Inr)
  with clean_fenced[OF l assms(2,3)] have "json_loads (clean_json_text (fenced c)) = Inr v"
    by simp
  then show ?thesis
    by (simp add: parse_gemini_json_def fenced_strip ne f)
qed

lemmas eval_lex = lex_json.simps(2) sub_trailing_commas.simps(2)

theorem fenced_json_same_value_witness:
  "json_loads [123, 34, 97, 34, 58, 32, 49, 125] = Inr (JObj [([97], JInt 1)])
   \<and> parse_gemini_json (fenced [123, 34, 97, 34, 58, 32, 49, 125]) = Inr (JObj [([97], JInt 1)])"
proof -
  have a: "json_loads [123, 34, 97, 34, 58, 32, 49, 125] = Inr (JObj [([97], JInt 1)])"
    by (simp add: eval_text eval_json eval_lex)
  have b: "\<not> has_escaped_quote [123, 34, 97, 34, 58, 32, 49, 125]" by simp
  have c: "\<not> has_trailing_comma [123, 34, 97, 34, 58, 32, 49, 125]"
    by (simp add: eval_text)
  from a fenced_json_same_value[OF a b c] show ?thesis by simp
qed

text \<open>
  Without the restriction the values differ: in the content \<^verbatim>\<open>{"a": "x,]"}\<close> the repair
  step removes the comma inside the string literal.
\<close>

theorem fenced_json_comma_in_string:
  "json_loads [123, 34, 97, 34, 58, 32, 34, 120, 44, 93, 34, 125]
     = Inr (JObj [([97], JStr [120, 44, 93])])
   \<and> parse_gemini_json (fenced [123, 34, 97, 34, 58, 32, 34, 120, 44, 93, 34, 125])
     = Inr (JObj [([97], JStr [120, 93])])"
proof -
  have a: "json_loads [123, 34, 97, 34, 58, 32, 34, 120, 44, 93, 34, 125]
           = Inr (JObj [([97], JStr [120, 44, 93])])"
    by (simp add: eval_text eval_json eval_lex)
  have b: "clean_json_text (fenced [123, 34, 97, 34, 58, 32, 34, 120, 44, 93, 34, 125])
           = [123, 34, 97, 34, 58, 32, 34, 120, 93, 34, 125]"
    by (simp add: clean_json_text_def fenced_def eval_text eval_lex Let_def)
  have c: "json_loads [123, 34, 97, 34, 58, 32, 34, 120, 93, 34, 125]
           = Inr (JObj [([97], JStr [120, 93])])"
    by (simp add: eval_text eval_json eval_lex)
  have f: "json_loads (fenced c) = Inl (JSONDecodeError (fenced c))" for c
    by (simp add: json_loads_def fenced_not_json)
  have ne: "fenced c \<noteq> []" for c by (simp add: fenced_def)
  show ?thesis
    by (simp only: a parse_gemini_json_def fenced_strip Let_def ne if_False f b c
        sum.case exn.case simp_thms)
qed

section \<open>The removal of trailing commas\<close>

lemma closer_props:
  "is_closer d \<Longrightarrow> d \<noteq> COMMA \<and> d \<noteq> QUOTE \<and> d \<noteq> BSLASH \<and> 31 < d \<and> \<not> tok_char d
     \<and> \<not> py_isspace d \<and> \<not> is_json_ws d"
  by (auto simp: is_closer_def tok_char_def is_digit_def py_isspace_def is_json_ws_def)

lemma sub_hd:
  "sub_trailing_commas (c # cs) = c # sub_trailing_commas cs
   \<or> (c = COMMA \<and> (\<exists>d ds. dropWhile py_isspace cs = d # ds \<and> is_closer d
         \<and> sub_trailing_commas (c # cs) = d # sub_trailing_commas ds))"
proof (cases "c = COMMA")
  case False
  then show ?thesis by (simp add: sub_noncomma)
next
  case True
  show ?thesis
  proof (cases "dropWhile py_isspace cs")
    case Nil
    from sub_comma_end[OF Nil] True show ?thesis by blast
  next
    case (Cons d ds)
    show ?thesis
    proof (cases "is_closer d")
      case c: True
      from sub_comma_closer[OF Cons c] True Cons c show ?thesis by blast
    next
      case False
      from sub_comma_other[OF Cons False] True show ?thesis by blast
    qed
  qed
qed

lemma sub_reflect:
  assumes "sub_trailing_commas x = y # ys" "y \<noteq> COMMA" "\<not> is_closer y"
  shows "\<exists>xs. x = y # xs \<and> ys = sub_trailing_commas xs"
proof (cases x)
  case Nil
  with assms show ?thesis by simp
next
  case (Cons c cs)
  from sub_hd[of c cs] assms Cons show ?thesis by auto
qed

lemma keeps_sub: "keeps_tokens sub_trailing_commas"
  unfolding keeps_tokens_def
proof (intro conjI allI impI)
  fix c :: nat and cs
  assume "tok_char c"
  then have "c \<noteq> COMMA" by (auto simp: tok_char_def is_digit_def)
  then show "sub_trailing_commas (c # cs) = c # sub_trailing_commas cs" by (rule sub_noncomma)
next
  fix x :: pystr
  assume a: "x = [] \<or> \<not> tok_char (hd x)"
  show "sub_trailing_commas x = [] \<or> \<not> tok_char (hd (sub_trailing_commas x))"
  proof (cases x)
    case Nil
    then show ?thesis by simp
  next
    case (Cons c cs)
    from sub_hd[of c cs] a Cons closer_props show ?thesis by auto
  qed
qed

lemma sub_prefix:
  "\<forall>x\<in>set pre. x \<noteq> COMMA \<Longrightarrow> sub_trailing_commas (pre @ r) = pre @ sub_trailing_commas r"
  by (induction pre) (simp_all add: sub_noncomma)

lemma sub_split:
  assumes x: "x \<noteq> COMMA" "\<not> py_isspace x" "\<not> is_closer x"
  shows "sub_trailing_commas (a @ x # b) = sub_trailing_commas a @ x # sub_trailing_commas b"
proof (induction a rule: length_induct)
  case (1 a)
  show ?case
  proof (cases a)
    case Nil
    with x show ?thesis by (simp add: sub_noncomma)
  next
    case (Cons c cs)
    then have ih: "sub_trailing_commas (cs @ x # b) = sub_trailing_commas cs @ x # sub_trailing_commas b"
      using 1 by simp
    show ?thesis
    proof (cases "c = COMMA")
      case False
      with ih Cons show ?thesis by (simp add: sub_noncomma)
    next
      case True
      show ?thesis
      proof (cases "dropWhile py_isspace cs")
        case Nil
        then have "\<And>w. w \<in> set cs \<Longrightarrow> py_isspace w" by (simp add: dropWhile_eq_Nil_conv)
        then have "dropWhile py_isspace (cs @ x # b) = dropWhile py_isspace (x # b)"
          by (rule dropWhile_append2)
        with x(2) have d: "dropWhile py_isspace (cs @ x # b) = x # b" by simp
        from sub_comma_other[OF d x(3)] sub_comma_end[OF Nil] ih True Cons
        show ?thesis by simp
      next
        case dd: (Cons d ds)
        from dropWhile_isspace_append[OF dd, of "x # b"]
        have d: "dropWhile py_isspace (cs @ x # b) = d # (ds @ x # b)" by simp
        show ?thesis
        proof (cases "is_closer d")
          case c: True
          have "length (dropWhile py_isspace cs) \<le> length cs" by (rule length_dropWhile_le)
          with dd Cons have "length ds < length a" by simp
          with 1 have i2: "sub_trailing_commas (ds @ x # b)
                           = sub_trailing_commas ds @ x # sub_trailing_commas b" by blast
          from sub_comma_closer[OF d c] sub_comma_closer[OF dd c] i2 True Cons
          show ?thesis by simp
        next
          case False
          from sub_comma_other[OF d False] sub_comma_other[OF dd False] ih True Cons
          show ?thesis by simp
        qed
      qed
    qed
  qed
qed

lemma sub_quote:
  "sub_trailing_commas (a @ QUOTE # b) = sub_trailing_commas a @ QUOTE # sub_trailing_commas b"
  by (rule sub_split) (simp_all add: py_isspace_def is_closer_def)

subsection \<open>String literals\<close>

lemma hex4_chars:
  assumes "hex4 [a, b, c, d] = Some v"
  shows "\<forall>x\<in>set [a, b, c, d]. x \<noteq> COMMA \<and> \<not> is_closer x"
proof -
  from hex4_Some[OF assms] have "hexval a \<noteq> None" "hexval b \<noteq> None" "hexval c \<noteq> None"
    "hexval d \<noteq> None" by simp_all
  then obtain va vb vc vd where "hexval a = Some va" "hexval b = Some vb" "hexval c = Some vc"
    "hexval d = Some vd" by blast
  from hexval_char[OF this(1)] hexval_char[OF this(2)] hexval_char[OF this(3)]
    hexval_char[OF this(4)]
  show ?thesis by simp
qed

lemma sub_escape:
  assumes "hex4 [a, b, c, d] = Some v"
  shows "sub_trailing_commas (BSLASH # 117 # a # b # c # d # r)
         = BSLASH # 117 # a # b # c # d # sub_trailing_commas r"
proof -
  from hex4_chars[OF assms] have "\<forall>x\<in>set [BSLASH, 117, a, b, c, d]. x \<noteq> COMMA" by simp
  from sub_prefix[OF this, of r] show ?thesis by simp
qed

lemma low_escape_sub: "low_escape (sub_trailing_commas x) = low_escape x"
proof -
  have 1: "low_escape (sub_trailing_commas x) = Some v" if "low_escape x = Some v" for v
  proof -
    from that obtain a b c d r where
      x: "x = BSLASH # 117 # a # b # c # d # r" and h: "hex4 [a, b, c, d] = Some v"
      by (auto simp: low_escape_iff)
    from sub_escape[OF h, of r] x h show ?thesis
      by (simp only: low_escape_iff) blast
  qed
  have 2: "low_escape x = Some v" if "low_escape (sub_trailing_commas x) = Some v" for v
  proof -
    from that obtain a b c d r where
      s0: "sub_trailing_commas x = BSLASH # 117 # a # b # c # d # r" and h: "hex4 [a, b, c, d] = Some v"
      by (auto simp: low_escape_iff)
    from hex4_chars[OF h] have n: "a \<noteq> COMMA" "\<not> is_closer a" "b \<noteq> COMMA" "\<not> is_closer b"
      "c \<noteq> COMMA" "\<not> is_closer c" "d \<noteq> COMMA" "\<not> is_closer d" by simp_all
    have m: "BSLASH \<noteq> COMMA" "\<not> is_closer BSLASH" "(117::nat) \<noteq> COMMA" "\<not> is_closer 117"
      by (simp_all add: is_closer_def)
    from sub_reflect[OF s0 m(1,2)] obtain x1 where
      x1: "x = BSLASH # x1" "117 # a # b # c # d # r = sub_trailing_commas x1" by blast
    from sub_reflect[OF x1(2)[symmetric] m(3,4)] obtain x2 where
      x2: "x1 = 117 # x2" "a # b # c # d # r = sub_trailing_commas x2" by blast
    from sub_reflect[OF x2(2)[symmetric] n(1,2)] obtain x3 where
      x3: "x2 = a # x3" "b # c # d # r = sub_trailing_commas x3" by blast
    from sub_reflect[OF x3(2)[symmetric] n(3,4)] obtain x4 where
      x4: "x3 = b # x4" "c # d # r = sub_trailing_commas x4" by blast
    from sub_reflect[OF x4(2)[symmetric] n(5,6)] obtain x5 where
      x5: "x4 = c # x5" "d # r = sub_trailing_commas x5" by blast
    from sub_reflect[OF x5(2)[symmetric] n(7,8)] obtain x6 where
      x6: "x5 = d # x6" by blast
    from x1(1) x2(1) x3(1) x4(1) x5(1) x6 have "x = BSLASH # 117 # a # b # c # d # x6" by simp
    with h show ?thesis by (simp only: low_escape_iff) blast
  qed
  show ?thesis
  proof (cases "low_escape x")
    case None
    with 2 show ?thesis by (cases "low_escape (sub_trailing_commas x)") auto
  next
    case (Some v)
    with 1 show ?thesis by simp
  qed
qed

lemma body_drop_space:
  "decode_body cs = Some str \<Longrightarrow> \<exists>str'. decode_body (dropWhile py_isspace cs) = Some str'"
proof (induction cs arbitrary: str)
  case Nil
  then show ?case by simp
next
  case (Cons c cs)
  show ?case
  proof (cases "py_isspace c")
    case False
    with Cons.prems show ?thesis by simp
  next
    case True
    then have c: "c \<noteq> BSLASH" "c \<noteq> QUOTE" by (auto simp: py_isspace_def)
    from c Cons.prems obtain d r where r: "read_char (c # cs) = Some (d, r)"
      by (cases "read_char (c # cs)") auto
    with c have "r = cs" by (auto simp: read_char_def split: if_splits)
    with r c Cons.prems obtain s' where "decode_body cs = Some s'" by auto
    from Cons.IH[OF this] True show ?thesis by simp
  qed
qed

lemma decode_plain:
  "d \<noteq> BSLASH \<Longrightarrow> d \<noteq> QUOTE \<Longrightarrow> 31 < d \<Longrightarrow>
     decode_body (d # r) = map_option ((#) d) (decode_body r)"
  by (simp add: read_char_plain)

lemma body_sub:
  "decode_body lit = Some str \<Longrightarrow> \<exists>str'. decode_body (sub_trailing_commas lit) = Some str'"
proof (induction lit arbitrary: str rule: length_induct)
  case (1 lit)
  show ?case
  proof (cases lit)
    case Nil
    then show ?thesis by simp
  next
    case (Cons c cs)
    from "1.prems" Cons have nq: "c \<noteq> QUOTE" by (auto split: if_splits)
    with "1.prems" Cons obtain d r where r: "read_char (c # cs) = Some (d, r)"
      by (cases "read_char (c # cs)") auto
    with nq "1.prems" Cons obtain s' where s': "decode_body r = Some s'" by auto
    from read_char_length[OF r] Cons have "length r < length lit" by simp
    with "1.IH" s' obtain s2 where ih: "decode_body (sub_trailing_commas r) = Some s2" by blast
    from r show ?thesis
    proof (cases rule: read_char_cases)
      case plain
      then have cd: "c = d" "cs = r" by simp_all
      show ?thesis
      proof (cases "sub_trailing_commas (c # cs) = c # sub_trailing_commas cs")
        case True
        from decode_plain[OF plain(2) nq[unfolded cd] plain(3), of "sub_trailing_commas r"] ih
        have "decode_body (d # sub_trailing_commas r) = Some (d # s2)" by simp
        with True cd Cons show ?thesis by simp
      next
        case False
        with sub_hd[of c cs] obtain x xs where
          dw: "dropWhile py_isspace cs = x # xs" and cl: "is_closer x"
          and sb: "sub_trailing_commas (c # cs) = x # sub_trailing_commas xs" by blast
        from closer_props[OF cl] have xp: "x \<noteq> BSLASH" "x \<noteq> QUOTE" "31 < x" by simp_all
        from body_drop_space[OF s'[folded cd(2)]] dw obtain s3 where
          "decode_body (x # xs) = Some s3" by auto
        with decode_plain[OF xp, of xs] obtain s4 where s4: "decode_body xs = Some s4" by auto
        have "length (dropWhile py_isspace cs) \<le> length cs" by (rule length_dropWhile_le)
        with dw Cons have "length xs < length lit" by simp
        with "1.IH" s4 obtain s5 where "decode_body (sub_trailing_commas xs) = Some s5" by blast
        with decode_plain[OF xp, of "sub_trailing_commas xs"]
        have "decode_body (x # sub_trailing_commas xs) = Some (x # s5)" by simp
        with sb Cons show ?thesis by simp
      qed
    next
      case (escape e)
      from unescape_char[OF escape(2)] have "\<forall>x\<in>set [BSLASH, e]. x \<noteq> COMMA" by simp
      from sub_prefix[OF this, of r] escape(1)
      have sb: "sub_trailing_commas (c # cs) = BSLASH # e # sub_trailing_commas r" by simp
      from read_char_escape[OF escape(2), of "sub_trailing_commas r"] ih
      have "decode_body (BSLASH # e # sub_trailing_commas r) = Some (d # s2)" by simp
      with sb Cons show ?thesis by simp
    next
      case (single a b c' e u)
      from sub_escape[OF single(2), of r] single(1)
      have sb: "sub_trailing_commas (c # cs)
                = BSLASH # 117 # a # b # c' # e # sub_trailing_commas r" by simp
      from single(4) have "\<not> (55296 \<le> u \<and> u \<le> 56319) \<or> low_escape (sub_trailing_commas r) = None
        \<or> (\<exists>u2. low_escape (sub_trailing_commas r) = Some u2 \<and> \<not> (56320 \<le> u2 \<and> u2 \<le> 57343))"
        by (simp only: low_escape_sub)
      from read_char_single[OF single(2) this] ih
      have "decode_body (BSLASH # 117 # a # b # c' # e # sub_trailing_commas r) = Some (u # s2)"
        by simp
      with sb Cons show ?thesis by simp
    next
      case (pair a b c' e u a2 b2 c2 e2 u2)
      from hex4_chars[OF pair(2)] hex4_chars[OF pair(3)]
      have "\<forall>x\<in>set [BSLASH, 117, a, b, c', e, BSLASH, 117, a2, b2, c2, e2]. x \<noteq> COMMA" by simp
      from sub_prefix[OF this, of r] pair(1)
      have sb: "sub_trailing_commas (c # cs)
                = BSLASH # 117 # a # b # c' # e # BSLASH # 117 # a2 # b2 # c2 # e2 # sub_trailing_commas r"
        by simp
      from read_char_pair[OF pair(2-7), of "sub_trailing_commas r"] ih
      have "decode_body (BSLASH # 117 # a # b # c' # e # BSLASH # 117 # a2 # b2 # c2 # e2 # sub_trailing_commas r)
            = Some ((65536 + ((u - 55296) * 1024 + (u2 - 56320))) # s2)" by simp
      with sb Cons show ?thesis by simp
    qed
  qed
qed

subsection \<open>Tokens\<close>

lemma next_token_closer:
  "next_token (d # ds) = Some (t, r) \<Longrightarrow> t = TRBrack \<or> t = TRBrace \<Longrightarrow> is_closer d"
  by (auto simp: next_token_alt atom_token_def is_closer_def split: if_splits option.splits)

lemma closer_token:
  "is_closer d \<Longrightarrow> next_token (d # ds) = Some (if d = RBRACK then TRBrack else TRBrace, ds)"
  by (auto simp: next_token_alt is_closer_def)

lemma dtc_other: "t \<noteq> TComma \<Longrightarrow> drop_trailing_commas (t # ts) = t # drop_trailing_commas ts"
  by (cases "t # ts" rule: drop_trailing_commas.cases) auto

lemma dtc_comma:
  "ts = [] \<or> (hd ts \<noteq> TRBrack \<and> hd ts \<noteq> TRBrace)
     \<Longrightarrow> drop_trailing_commas (TComma # ts) = TComma # drop_trailing_commas ts"
  by (cases "TComma # ts" rule: drop_trailing_commas.cases) auto

lemma dtc_closer:
  "t = TRBrack \<or> t = TRBrace
     \<Longrightarrow> drop_trailing_commas (TComma # t # ts) = t # drop_trailing_commas ts"
  by auto

lemma lex_all_space:
  assumes "lex_json cs = Some ts" and "dropWhile py_isspace cs = []"
  shows "ts = []"
proof -
  from lex_lstrip[OF assms(1)] have "lex_json (dropWhile py_isspace cs) = Some ts" .
  then have "lex_json [] = Some ts" by (simp only: assms(2))
  then show ?thesis by simp
qed

lemma lex_token_shape:
  assumes "next_token (c # x) = Some (t', x')" and "\<not> is_json_ws c"
    and "lex_json x' = Some ts'" and "tshape t' = tshape t"
    and "map tshape ts' = map tshape ts"
  shows "\<exists>ts2. lex_json (c # x) = Some ts2 \<and> map tshape ts2 = map tshape (t # ts)"
  using lex_json_token[OF assms(1,2)] assms(3-5) by (simp add: tcons_def)

lemma lex_sub:
  "lex_json s = Some ts \<Longrightarrow>
     \<exists>ts'. lex_json (sub_trailing_commas s) = Some ts'
       \<and> map tshape ts' = map tshape (drop_trailing_commas ts)"
proof (induction s arbitrary: ts rule: length_induct)
  case (1 s)
  show ?case
  proof (cases s)
    case Nil
    with "1.prems" show ?thesis by simp
  next
    case (Cons c cs)
    show ?thesis
    proof (cases "is_json_ws c")
      case True
      then have nc: "c \<noteq> COMMA" by (auto simp: is_json_ws_def)
      from True "1.prems" Cons have "lex_json cs = Some ts" by (simp add: lex_json_ws)
      with "1.IH" Cons obtain ts' where
        "lex_json (sub_trailing_commas cs) = Some ts'"
        "map tshape ts' = map tshape (drop_trailing_commas ts)" by auto
      with True nc Cons show ?thesis by (simp add: sub_noncomma lex_json_ws)
    next
      case False
      from lex_json_Cons[OF "1.prems"[unfolded Cons] False] obtain t r ts0 where
        n: "next_token (c # cs) = Some (t, r)" and lr: "lex_json r = Some ts0"
        and ts: "ts = t # ts0" by blast
      from next_token_length[OF n] Cons have len: "length r < length s" by simp
      with "1.IH" lr obtain ts0' where
        ih: "lex_json (sub_trailing_commas r) = Some ts0'"
            "map tshape ts0' = map tshape (drop_trailing_commas ts0)" by blast
      consider (comma) "c = COMMA" | (quote) "c = QUOTE"
        | (punct) "c = 123 \<or> c = 125 \<or> c = 91 \<or> c = 93 \<or> c = 58"
        | (atom) "c \<noteq> COMMA" "c \<noteq> QUOTE" "\<not> (c = 123 \<or> c = 125 \<or> c = 91 \<or> c = 93 \<or> c = 58)"
        by blast
      then show ?thesis
      proof cases
        case punct
        then have nc: "c \<noteq> COMMA" by auto
        from punct n have r: "r = cs" and tc: "t \<noteq> TComma"
          by (auto simp: next_token_alt split: if_splits)
        from punct n r have n': "next_token (c # sub_trailing_commas cs) = Some (t, sub_trailing_commas cs)"
          by (auto simp: next_token_alt split: if_splits)
        from lex_token_shape[OF n' False ih(1)[unfolded r] refl ih(2)]
        show ?thesis by (simp add: Cons ts sub_noncomma[OF nc] dtc_other[OF tc])
      next
        case atom
        with n have a: "atom_token (c # cs) = Some (t, r)" by (simp add: next_token_alt)
        then have tc: "t \<noteq> TComma" by (auto simp: atom_token_def split: option.splits)
        from keeps_atom[OF keeps_sub a]
        have "atom_token (c # sub_trailing_commas cs) = Some (t, sub_trailing_commas r)"
          by (simp add: sub_noncomma[OF atom(1)])
        with atom have n': "next_token (c # sub_trailing_commas cs) = Some (t, sub_trailing_commas r)"
          by (simp add: next_token_alt)
        from lex_token_shape[OF n' False ih(1) refl ih(2)]
        show ?thesis by (simp add: Cons ts sub_noncomma[OF atom(1)] dtc_other[OF tc])
      next
        case quote
        then have nc: "c \<noteq> COMMA" by simp
        from quote n obtain str where sc: "scan_string cs = Some (str, r)" and t: "t = TStr str"
          by (auto simp: next_token_alt split: option.splits)
        from scan_string_body[OF sc] obtain lit where
          cs: "cs = lit @ QUOTE # r" and b: "decode_body lit = Some str" by blast
        from body_sub[OF b] obtain str' where b': "decode_body (sub_trailing_commas lit) = Some str'"
          by blast
        from body_scan_string[OF b', of "sub_trailing_commas r"]
        have "scan_string (sub_trailing_commas cs) = Some (str', sub_trailing_commas r)"
          by (simp add: cs sub_quote)
        with quote have n': "next_token (c # sub_trailing_commas cs) = Some (TStr str', sub_trailing_commas r)"
          by (simp add: next_token_alt)
        have tc: "t \<noteq> TComma" using t by simp
        have sh: "tshape (TStr str') = tshape t" using t by simp
        from lex_token_shape[OF n' False ih(1) sh ih(2)]
        show ?thesis by (simp add: Cons ts sub_noncomma[OF nc] dtc_other[OF tc])
      next
        case comma
        with n have t: "t = TComma" and r: "r = cs" by (auto simp: next_token_alt)
        have nt: "next_token (COMMA # x) = Some (TComma, x)" for x
          by (simp add: next_token_alt)
        have nw: "\<not> is_json_ws COMMA" by (simp add: is_json_ws_def)
        show ?thesis
        proof (cases "dropWhile py_isspace cs")
          case Nil
          from lex_all_space[OF lr[unfolded r] Nil] have e: "ts0 = []" .
          from lex_token_shape[OF nt nw ih(1)[unfolded r] refl ih(2)]
          show ?thesis
            by (simp add: Cons ts t comma e sub_comma_end[OF Nil])
        next
          case dd: (Cons d ds)
          from lex_lstrip[OF lr[unfolded r]] dd have ld: "lex_json (d # ds) = Some ts0" by simp
          from hd_dropWhile[of py_isspace cs] dd have "\<not> py_isspace d" by simp
          with json_ws_isspace have dw: "\<not> is_json_ws d" by blast
          from lex_json_Cons[OF ld dw] obtain t1 r1 ts1 where
            n1: "next_token (d # ds) = Some (t1, r1)" and l1: "lex_json r1 = Some ts1"
            and ts0: "ts0 = t1 # ts1" by blast
          show ?thesis
          proof (cases "is_closer d")
            case False
            with next_token_closer[OF n1] have "t1 \<noteq> TRBrack \<and> t1 \<noteq> TRBrace" by blast
            with ts0 have "ts0 = [] \<or> (hd ts0 \<noteq> TRBrack \<and> hd ts0 \<noteq> TRBrace)" by simp
            note dc = dtc_comma[OF this]
            from lex_token_shape[OF nt nw ih(1)[unfolded r] refl ih(2)]
            show ?thesis
              by (simp add: Cons ts t comma dc sub_comma_other[OF dd False])
          next
            case True
            from closer_token[OF True, of ds] n1
            have t1: "t1 = TRBrack \<or> t1 = TRBrace" and r1: "r1 = ds" by (auto split: if_splits)
            have "length (dropWhile py_isspace cs) \<le> length cs" by (rule length_dropWhile_le)
            with dd Cons have "length ds < length s" by simp
            with "1.IH" l1 r1 obtain ts1' where
              i1: "lex_json (sub_trailing_commas ds) = Some ts1'"
                  "map tshape ts1' = map tshape (drop_trailing_commas ts1)" by blast
            from closer_token[OF True, of "sub_trailing_commas ds"] closer_token[OF True, of ds] n1
            have n': "next_token (d # sub_trailing_commas ds) = Some (t1, sub_trailing_commas ds)"
              by simp
            from lex_token_shape[OF n' dw i1(1) refl i1(2)]
            show ?thesis
              by (simp add: Cons ts t comma ts0 dtc_closer[OF t1] sub_comma_closer[OF dd True])
          qed
        qed
      qed
    qed
  qed
qed

section \<open>The parser accepts by the shapes of the tokens\<close>

lemma finish_shape: "map_option state_shape (finish v st) = sfinish (map frame_shape st)"
  by (cases "(v, st)" rule: finish.cases) (simp_all add: state_shape_def)

lemma sfinish_arr:
  "(case st of [] \<Rightarrow> None | InArr vs # r \<Rightarrow> map_option state_shape (finish (f vs) r) | _ \<Rightarrow> None)
   = (case map frame_shape st of SArr # r \<Rightarrow> sfinish r | _ \<Rightarrow> None)"
proof (cases st)
  case Nil
  then show ?thesis by simp
next
  case (Cons a r)
  then show ?thesis by (cases a) (simp_all add: finish_shape)
qed

lemma sfinish_obj:
  "(case st of [] \<Rightarrow> None | InObj ps # r \<Rightarrow> map_option state_shape (finish (f ps) r) | _ \<Rightarrow> None)
   = (case map frame_shape st of SObj # r \<Rightarrow> sfinish r | _ \<Rightarrow> None)"
proof (cases st)
  case Nil
  then show ?thesis by simp
next
  case (Cons a r)
  then show ?thesis by (cases a) (simp_all add: finish_shape)
qed

lemma map_option_arr:
  "map_option g (case st of [] \<Rightarrow> None | InArr vs # r \<Rightarrow> h vs r | _ \<Rightarrow> None)
   = (case st of [] \<Rightarrow> None | InArr vs # r \<Rightarrow> map_option g (h vs r) | _ \<Rightarrow> None)"
  by (simp split: list.splits frame.splits)

lemma map_option_obj:
  "map_option g (case st of [] \<Rightarrow> None | InObj ps # r \<Rightarrow> h ps r | _ \<Rightarrow> None)
   = (case st of [] \<Rightarrow> None | InObj ps # r \<Rightarrow> map_option g (h ps r) | _ \<Rightarrow> None)"
  by (simp split: list.splits frame.splits)

lemma value_tok_shape:
  "map_option state_shape (value_tok first st t) = svalue_tok first (map frame_shape st) (tshape t)"
proof (cases t)
  case TRBrack
  show ?thesis
  proof (cases first)
    case True
    with TRBrack sfinish_arr[of JArr st] show ?thesis
      by (simp add: value_tok_def svalue_tok_def map_option_arr)
  next
    case False
    with TRBrack show ?thesis by (simp add: value_tok_def svalue_tok_def)
  qed
qed (simp_all add: value_tok_def svalue_tok_def finish_shape state_shape_def)

lemma pstep_shape:
  "map_option state_shape (pstep (m, st) t) = sstep (mode_shape m, map frame_shape st) (tshape t)"
proof (cases m)
  case MValue
  then show ?thesis by (simp add: pstep_def sstep_def value_tok_shape)
next
  case MArrFirst
  then show ?thesis by (simp add: pstep_def sstep_def value_tok_shape)
next
  case MObjFirst
  show ?thesis
  proof (cases t)
    case TRBrace
    with MObjFirst sfinish_obj[of "\<lambda>ps. JObj (py_dict ps)" st] show ?thesis
      by (simp add: pstep_def sstep_def map_option_obj)
  qed (simp_all add: MObjFirst pstep_def sstep_def state_shape_def)
next
  case MKey
  then show ?thesis by (cases t) (simp_all add: pstep_def sstep_def state_shape_def)
next
  case (MColon k)
  show ?thesis
  proof (cases t)
    case TColon
    show ?thesis
    proof (cases st)
      case Nil
      with MColon TColon show ?thesis by (simp add: pstep_def sstep_def)
    next
      case (Cons a r)
      with MColon TColon show ?thesis
        by (cases a) (simp_all add: pstep_def sstep_def state_shape_def)
    qed
  qed (simp_all add: MColon pstep_def sstep_def)
next
  case MSep
  show ?thesis
  proof (cases st)
    case Nil
    with MSep show ?thesis by (simp add: pstep_def sstep_def)
  next
    case (Cons a r)
    show ?thesis
    proof (cases a)
      case (InArr vs)
      with MSep Cons show ?thesis
        by (cases t) (simp_all add: pstep_def sstep_def state_shape_def finish_shape)
    next
      case (InObj ps)
      with MSep Cons show ?thesis
        by (cases t) (simp_all add: pstep_def sstep_def state_shape_def finish_shape)
    next
      case (InKey ps k)
      with MSep Cons show ?thesis by (simp add: pstep_def sstep_def)
    qed
  qed
next
  case (MDone v)
  then show ?thesis by (simp add: pstep_def sstep_def)
qed

lemma done_shape: "state_shape s = (SDone, []) \<longleftrightarrow> (\<exists>v. s = (MDone v, []))"
proof (cases s)
  case (Pair m st)
  then show ?thesis by (cases m) (auto simp: state_shape_def)
qed

lemma parse_accepts:
  "(\<exists>v. parse_toks s ts = Some v) \<longleftrightarrow> saccepts (state_shape s) (map tshape ts)"
proof (induction ts arbitrary: s)
  case Nil
  have "(\<exists>v. parse_toks s [] = Some v) \<longleftrightarrow> (\<exists>v. s = (MDone v, []))"
    by (auto split: prod.splits mode.splits list.splits)
  then show ?case by (simp add: done_shape)
next
  case (Cons t ts)
  obtain m st where s: "s = (m, st)" by (cases s)
  from pstep_shape[of m st t]
  have p: "map_option state_shape (pstep s t) = sstep (state_shape s) (tshape t)"
    by (simp add: s state_shape_def)
  show ?case
  proof (cases "pstep s t")
    case None
    with p show ?thesis by simp
  next
    case (Some s')
    with p have "sstep (state_shape s) (tshape t) = Some (state_shape s')" by simp
    with Some Cons.IH[of s'] show ?thesis by simp
  qed
qed

text \<open>The repair step on a text that the lexer accepts.\<close>

lemma clean_lexable:
  assumes l: "lex_json raw = Some ts" and ne: "raw \<noteq> []" and e: "\<not> has_escaped_quote raw"
  shows "clean_json_text raw = py_strip (sub_trailing_commas (py_strip raw))"
proof -
  from lex_strip[OF l] have ls: "lex_json (py_strip raw) = Some ts" .
  have e0: "\<forall>b. sub_fence_open b [] = []" by simp
  from lex_fence_open[OF e0 ls, of True] have r2: "sub_fence_open True (py_strip raw) = py_strip raw"
    by simp
  have r3: "sub_fence_close (py_strip raw) = py_strip raw" by (rule lex_fence_close[OF ls])
  have r4: "\<not> lower_startswith_json (py_strip raw)" by (rule lex_no_json_prefix[OF ls])
  have r5: "unescape_quotes (py_strip raw) = py_strip raw"
    by (rule unescape_quotes_id[OF strip_escaped[OF e]])
  show ?thesis
    unfolding clean_json_text_def Let_def
    by (simp only: ne if_False r2 py_strip_idem r3 r4 r5)
qed

text \<open>
  Claim C2, amended.  For every raw text whose only malformation is trailing commas
  directly before a closing brace or bracket (the text denotes a JSON value once these
  commas are ignored) and that has no backslash directly followed by a quote, the text
  produced by \<^verbatim>\<open>clean_json_text\<close> parses successfully as JSON.
\<close>

theorem trailing_commas_repaired:
  assumes "loads_ignoring_trailing_commas raw = Some v" and "\<not> has_escaped_quote raw"
  shows "\<exists>v'. json_loads (clean_json_text raw) = Inr v'"
proof -
  from assms(1) obtain ts where l: "lex_json raw = Some ts"
    and p: "parse_toks (MValue, []) (drop_trailing_commas ts) = Some v"
    by (auto simp: loads_ignoring_trailing_commas_def split: option.splits)
  have ne: "raw \<noteq> []"
  proof
    assume "raw = []"
    with l have "ts = []" by simp
    with p show False by simp
  qed
  from lex_sub[OF lex_strip[OF l]] obtain ts' where
    l': "lex_json (sub_trailing_commas (py_strip raw)) = Some ts'"
    and sh: "map tshape ts' = map tshape (drop_trailing_commas ts)" by blast
  from p have "saccepts (state_shape (MValue, [])) (map tshape (drop_trailing_commas ts))"
    by (simp only: parse_accepts[symmetric]) blast
  with sh have "saccepts (state_shape (MValue, [])) (map tshape ts')" by simp
  then obtain v' where p': "parse_toks (MValue, []) ts' = Some v'"
    by (simp only: parse_accepts[symmetric]) blast
  from lex_strip[OF l'] p' clean_lexable[OF l ne assms(2)]
  have "json_loads (clean_json_text raw) = Inr v'" by (simp add: json_loads_Inr)
  then show ?thesis by blast
qed

theorem trailing_commas_repaired_witness:
  "loads_ignoring_trailing_commas [91, 49, 44, 32, 93, 32] = Some (JArr [JInt 1])
   \<and> (\<exists>v'. json_loads (clean_json_text [91, 49, 44, 32, 93, 32]) = Inr v')"
proof -
  have a: "loads_ignoring_trailing_commas [91, 49, 44, 32, 93, 32] = Some (JArr [JInt 1])"
    by (simp add: loads_ignoring_trailing_commas_def eval_text eval_json eval_lex)
  have b: "\<not> has_escaped_quote [91, 49, 44, 32, 93, 32]" by simp
  from a trailing_commas_repaired[OF a b] show ?thesis by simp
qed

text \<open>
  Without the restriction the repaired text need not parse: in \<^verbatim>\<open>{"a": "x\"y",}\<close> the
  only malformation is the trailing comma, but the repair step also unescapes the quote
  inside the string literal.
\<close>

theorem trailing_comma_with_escaped_quote:
  "loads_ignoring_trailing_commas [123, 34, 97, 34, 58, 32, 34, 120, 92, 34, 121, 34, 44, 125]
     = Some (JObj [([97], JStr [120, 34, 121])])
   \<and> clean_json_text [123, 34, 97, 34, 58, 32, 34, 120, 92, 34, 121, 34, 44, 125]
     = [123, 34, 97, 34, 58, 32, 34, 120, 34, 121, 34, 125]
   \<and> json_loads (clean_json_text [123, 34, 97, 34, 58, 32, 34, 120, 92, 34, 121, 34, 44, 125])
     = Inl (JSONDecodeError [123, 34, 97, 34, 58, 32, 34, 120, 34, 121, 34, 125])"
proof -
  have a: "loads_ignoring_trailing_commas [123, 34, 97, 34, 58, 32, 34, 120, 92, 34, 121, 34, 44, 125]
           = Some (JObj [([97], JStr [120, 34, 121])])"
    by (simp add: loads_ignoring_trailing_commas_def eval_text eval_json eval_lex)
  have b: "clean_json_text [123, 34, 97, 34, 58, 32, 34, 120, 92, 34, 121, 34, 44, 125]
           = [123, 34, 97, 34, 58, 32, 34, 120, 34, 121, 34, 125]"
    by (simp add: clean_json_text_def eval_text eval_lex Let_def)
  have c: "json_loads [123, 34, 97, 34, 58, 32, 34, 120, 34, 121, 34, 125]
           = Inl (JSONDecodeError [123, 34, 97, 34, 58, 32, 34, 120, 34, 121, 34, 125])"
    by (simp add: eval_text eval_json eval_lex)
  show ?thesis by (simp only: a b c simp_thms)
qed

end
